theory Spec2Isabelle
  imports Complex_Main "HOL-Library.Word"
begin

section \<open>Memory resources (os-memory.cpp)\<close>

text \<open>
  C++ objects are identified by their address. A pointer is an optional address,
  \<open>None\<close> being \<open>nullptr\<close>.
\<close>

type_synonym addr = nat
type_synonym ptr = "addr option"

text \<open>
  The part of the global state that \<open>rtos::memory::set_default_resource\<close> touches:
  the variable \<open>default_resource\<close> and the output of \<open>trace::printf\<close>, kept as the
  list of pointers printed so far.
\<close>

record memory_globals =
  default_resource :: ptr
  trace_out :: "ptr list"

text \<open>
  \<^verbatim>\<open>
  memory_resource* set_default_resource (memory_resource* res) noexcept
  {
    trace::printf ("rtos::memory::%s(%p) \n", __func__, res);
    memory_resource* old = default_resource;
    default_resource = res;
    return old;
  }
  \<close>
\<close>

definition set_default_resource :: "ptr \<Rightarrow> memory_globals \<Rightarrow> ptr \<times> memory_globals" where
  "set_default_resource res g =
     (let g1 = g\<lparr>trace_out := trace_out g @ [res]\<rparr>;
          old = default_resource g1;
          g2 = g1\<lparr>default_resource := res\<rparr>
      in (old, g2))"

text \<open>
  \<open>memory_resource::do_is_equal\<close>: \<^verbatim>\<open>return &other == this;\<close>
\<close>

definition do_is_equal :: "addr \<Rightarrow> addr \<Rightarrow> bool" where
  "do_is_equal this other = (other = this)"

text \<open>
  The default bodies of the optional virtual members, over an arbitrary object state
  \<open>'s\<close>: \<open>do_max_size\<close> is \<^verbatim>\<open>return 0;\<close>, \<open>do_reset\<close> is \<^verbatim>\<open>return;\<close> and
  \<open>do_coalesce\<close> is \<^verbatim>\<open>return false;\<close>. A member that may write to the object returns
  the object state next to its result.
\<close>

definition do_max_size :: "'s \<Rightarrow> nat" where
  "do_max_size this = 0"

definition do_reset :: "'s \<Rightarrow> 's" where
  "do_reset this = this"

definition do_coalesce :: "'s \<Rightarrow> bool \<times> 's" where
  "do_coalesce this = (False, this)"

text \<open>
  Virtual dispatch: a class derived from \<open>memory_resource\<close> either overrides a virtual
  member or inherits the body above. The record holds the overriding bodies of a class,
  \<open>None\<close> where the class does not override.
\<close>

record 's resource_class =
  max_size_override :: "('s \<Rightarrow> nat) option"
  reset_override :: "('s \<Rightarrow> 's) option"
  coalesce_override :: "('s \<Rightarrow> bool \<times> 's) option"

definition call_do_max_size :: "'s resource_class \<Rightarrow> 's \<Rightarrow> nat" where
  "call_do_max_size c this =
     (case max_size_override c of None \<Rightarrow> do_max_size this | Some f \<Rightarrow> f this)"

definition call_do_reset :: "'s resource_class \<Rightarrow> 's \<Rightarrow> 's" where
  "call_do_reset c this =
     (case reset_override c of None \<Rightarrow> do_reset this | Some f \<Rightarrow> f this)"

definition call_do_coalesce :: "'s resource_class \<Rightarrow> 's \<Rightarrow> bool \<times> 's" where
  "call_do_coalesce c this =
     (case coalesce_override c of None \<Rightarrow> do_coalesce this | Some f \<Rightarrow> f this)"

section \<open>Clock conversions (os-c-api.h)\<close>

text \<open>
  \<^verbatim>\<open>
  inline os_clock_duration_t
  os_sysclock_ticks_cast (uint32_t microsec)
  {
    return (os_clock_duration_t) ((((microsec)
        * ((uint32_t) OS_INTEGER_SYSTICK_FREQUENCY_HZ)) + (uint32_t) 1000000ul
        - 1) / (uint32_t) 1000000ul);
  }
  \<close>
  and the same with \<open>uint64_t\<close> for \<open>os_sysclock_ticks_cast_long\<close>. The macro
  \<open>OS_INTEGER_SYSTICK_FREQUENCY_HZ\<close> and the type \<open>os_clock_duration_t\<close> are declared
  outside the files at hand: the frequency is the parameter \<open>hz\<close>, and the result type is
  an unsigned integer of any width \<open>'d\<close>, the cast being \<open>ucast\<close>.
\<close>

definition os_sysclock_ticks_cast :: "nat \<Rightarrow> 32 word \<Rightarrow> 'd::len word" where
  "os_sysclock_ticks_cast hz microsec =
     ucast ((microsec * (of_nat hz :: 32 word) + 1000000 - 1) div 1000000)"

definition os_sysclock_ticks_cast_long :: "nat \<Rightarrow> 64 word \<Rightarrow> 'd::len word" where
  "os_sysclock_ticks_cast_long hz microsec =
     ucast ((microsec * (of_nat hz :: 64 word) + 1000000 - 1) div 1000000)"

text \<open>
  The round-up of \<open>microsec * hz / 1000000\<close> in unbounded arithmetic.
\<close>

definition ticks_round_up :: "nat \<Rightarrow> nat \<Rightarrow> nat" where
  "ticks_round_up hz microsec =
     nat \<lceil>(real microsec * real hz) / 1000000\<rceil>"

section \<open>Threads and lists of waiting threads (os-lists.h)\<close>

text \<open>
  Modelled from the spec: the class \<open>Thread\<close> is only forward-declared in os-lists.h.
  Of its fields (section 3, Thread) the lists use the dynamic priority and the state;
  a thread is identified by its address, and the thread table maps each address to
  the thread object.
\<close>

datatype thread_state =
  st_undefined | st_ready | st_running | st_suspended | st_terminated | st_destroyed

record Thread =
  dyn_prio :: nat
  state :: thread_state

text \<open>
  The kernel state the list operations act on: the thread table, and the sequence of
  threads made ready so far, in the order in which they were woken up.
\<close>

record kernel =
  threads :: "addr \<Rightarrow> Thread"
  woken :: "addr list"

text \<open>
  Modelled from the spec: waking a thread up marks it ready (section 4.2, "marks its
  thread ready"); the body of the wake-up is not in os-lists.h.
\<close>

definition thread_wakeup :: "addr \<Rightarrow> kernel \<Rightarrow> kernel" where
  "thread_wakeup t k =
     k\<lparr>threads := (threads k)(t := (threads k t)\<lparr>state := st_ready\<rparr>),
       woken := woken k @ [t]\<rparr>"

text \<open>
  \<^verbatim>\<open>struct Thread_node { Thread* thread; };\<close> and
  \<^verbatim>\<open>struct Clock_node { clock::timestamp_t timestamp; Thread* thread; };\<close>
  (the second thread field is named \<open>clock_thread\<close> here, since two records cannot share
  a field name). A timestamp is an unsigned count of ticks that the lists only compare,
  a natural number here. \<open>Double_list_node<Payload>\<close> is an object, identified by its
  address \<open>self\<close>, with the payload \<open>node\<close>; its links are its position in the list.
\<close>

record Thread_node =
  thread :: addr

record Clock_node =
  timestamp :: nat
  clock_thread :: addr

record 'p Double_list_node =
  self :: addr
  node :: 'p

type_synonym Double_list_node_thread = "Thread_node Double_list_node"
type_synonym Double_list_node_clock = "Clock_node Double_list_node"

text \<open>
  \<open>Double_list\<close>: the nodes linked into the list, in the order in which they are met
  from \<open>head_\<close> following \<open>next\<close>, and the counter \<open>count_\<close>, a field of its own that
  every operation has to maintain. (A name cannot end with an underscore here: the
  members \<open>head_\<close> and \<open>count_\<close> are \<open>head_m\<close> and \<open>count_m\<close>.)
\<close>

record 'n Double_list =
  nodes :: "'n list"
  count_m :: nat

definition head_m :: "'n Double_list \<Rightarrow> 'n option" where
  "head_m l = (case nodes l of [] \<Rightarrow> None | n # ns \<Rightarrow> Some n)"

text \<open>
  Modelled from the spec: the body of the constructor \<open>Double_list::Double_list ()\<close> is
  not in os-lists.h; a new list has no nodes and a zero counter (section 4.1; the
  constructor of \<open>Waiting_threads_list\<close> notes "The initial list status is empty").
\<close>

definition Double_list_ctor :: "'n Double_list" where
  "Double_list_ctor = \<lparr>nodes = [], count_m = 0\<rparr>"

text \<open>
  Modelled from the spec: the bodies of \<open>Double_list::remove\<close> and \<open>Double_list::clear\<close>
  are not in os-lists.h. \<open>remove\<close> unlinks the node and updates the maintained counter
  (section 4.1); a node that is not linked is left alone, since a timeout node is removed
  once more after its expiry took it off the list (sections 4.3 and 5, Timeouts). In
  this view of the list as the sequence of its nodes, a node is linked exactly when it
  is in the sequence: the nodes are those of this list alone. What \<open>remove\<close> does by
  the pointers of the node, also to a node that is linked elsewhere, is in the section
  on the links in memory.
\<close>

definition Double_list_remove :: "'n \<Rightarrow> 'n Double_list \<Rightarrow> 'n Double_list" where
  "Double_list_remove n l =
     (if n \<in> set (nodes l)
      then l\<lparr>nodes := remove1 n (nodes l), count_m := count_m l - 1\<rparr>
      else l)"

definition Double_list_clear :: "'n Double_list \<Rightarrow> 'n Double_list" where
  "Double_list_clear l = l\<lparr>nodes := [], count_m := 0\<rparr>"

subsection \<open>Waiting\_threads\_list\<close>

definition node_prio :: "(addr \<Rightarrow> Thread) \<Rightarrow> Double_list_node_thread \<Rightarrow> nat" where
  "node_prio th n = dyn_prio (th (thread (node n)))"

text \<open>
  Modelled from the spec: the body of \<open>Waiting_threads_list::add\<close> is not in os-lists.h.
  Section 4.2: "\<open>add(node)\<close> walks from head until a lower-priority (strictly) node is
  found and inserts before it; ties fall through".
\<close>

fun insert_by_prio ::
  "(addr \<Rightarrow> Thread) \<Rightarrow> Double_list_node_thread \<Rightarrow> Double_list_node_thread list
    \<Rightarrow> Double_list_node_thread list" where
  "insert_by_prio th n [] = [n]"
| "insert_by_prio th n (m # ms) =
     (if node_prio th m < node_prio th n then n # m # ms
      else m # insert_by_prio th n ms)"

definition Waiting_threads_list_add ::
  "(addr \<Rightarrow> Thread) \<Rightarrow> Double_list_node_thread \<Rightarrow> Double_list_node_thread Double_list
    \<Rightarrow> Double_list_node_thread Double_list" where
  "Waiting_threads_list_add th n l =
     l\<lparr>nodes := insert_by_prio th n (nodes l), count_m := count_m l + 1\<rparr>"

text \<open>
  Modelled from the spec: the bodies of \<open>wakeup_one\<close> and \<open>wakeup_all\<close> are not in
  os-lists.h. Section 4.2: "\<open>wakeup_one()\<close> detaches head and marks its thread ready.
  \<open>wakeup_all()\<close> drains in head order". On an empty list there is nothing to wake up.
\<close>

definition Waiting_threads_list_wakeup_one ::
  "Double_list_node_thread Double_list \<times> kernel
    \<Rightarrow> Double_list_node_thread Double_list \<times> kernel" where
  "Waiting_threads_list_wakeup_one lk =
     (case head_m (fst lk) of
        None \<Rightarrow> lk
      | Some h \<Rightarrow> (Double_list_remove h (fst lk), thread_wakeup (thread (node h)) (snd lk)))"

function Waiting_threads_list_wakeup_all ::
  "Double_list_node_thread Double_list \<times> kernel
    \<Rightarrow> Double_list_node_thread Double_list \<times> kernel" where
  "Waiting_threads_list_wakeup_all lk =
     (if head_m (fst lk) = None then lk
      else Waiting_threads_list_wakeup_all (Waiting_threads_list_wakeup_one lk))"
  by pat_completeness auto
termination
  by (relation "measure (\<lambda>lk. length (nodes (fst lk)))")
    (auto simp: Waiting_threads_list_wakeup_one_def Double_list_remove_def head_m_def
      split: list.splits)

declare Waiting_threads_list_wakeup_all.simps [simp del]

subsection \<open>Clock\_threads\_list\<close>

text \<open>
  Modelled from the spec: the bodies of \<open>Clock_threads_list::add\<close>, \<open>wakeup_one\<close> and
  \<open>check_wakeup\<close> are not in os-lists.h. Section 4.3: "Ordered insertion by ascending
  deadline. \<open>check_wakeup(now)\<close> repeatedly pops the head while \<open>head.deadline \<le> now\<close>,
  marking each thread ready". Where the new deadline is already on the list, the node
  is inserted behind the nodes of that deadline.
\<close>

fun insert_by_timestamp ::
  "Double_list_node_clock \<Rightarrow> Double_list_node_clock list \<Rightarrow> Double_list_node_clock list" where
  "insert_by_timestamp n [] = [n]"
| "insert_by_timestamp n (m # ms) =
     (if timestamp (node n) < timestamp (node m) then n # m # ms
      else m # insert_by_timestamp n ms)"

definition Clock_threads_list_add ::
  "Double_list_node_clock \<Rightarrow> Double_list_node_clock Double_list
    \<Rightarrow> Double_list_node_clock Double_list" where
  "Clock_threads_list_add n l =
     l\<lparr>nodes := insert_by_timestamp n (nodes l), count_m := count_m l + 1\<rparr>"

definition Clock_threads_list_wakeup_one ::
  "Double_list_node_clock Double_list \<times> kernel
    \<Rightarrow> Double_list_node_clock Double_list \<times> kernel" where
  "Clock_threads_list_wakeup_one lk =
     (case head_m (fst lk) of
        None \<Rightarrow> lk
      | Some h \<Rightarrow>
          (Double_list_remove h (fst lk), thread_wakeup (clock_thread (node h)) (snd lk)))"

function Clock_threads_list_check_wakeup ::
  "nat \<Rightarrow> Double_list_node_clock Double_list \<times> kernel
    \<Rightarrow> Double_list_node_clock Double_list \<times> kernel" where
  "Clock_threads_list_check_wakeup now lk =
     (case head_m (fst lk) of
        None \<Rightarrow> lk
      | Some h \<Rightarrow>
          if timestamp (node h) \<le> now
          then Clock_threads_list_check_wakeup now (Clock_threads_list_wakeup_one lk)
          else lk)"
  by pat_completeness auto
termination
  by (relation "measure (\<lambda>(now, lk). length (nodes (fst lk)))")
    (auto simp: Clock_threads_list_wakeup_one_def Double_list_remove_def head_m_def
      split: list.splits)

declare Clock_threads_list_check_wakeup.simps [simp del]

text \<open>
  Modelled from the spec: \<open>Clock_threads_list::wakeup_all\<close> is only declared ("Wake-up
  all tasks in the list"); as for the list of waiting threads, it drains the list in
  head order (section 4.2).
\<close>

function Clock_threads_list_wakeup_all ::
  "Double_list_node_clock Double_list \<times> kernel
    \<Rightarrow> Double_list_node_clock Double_list \<times> kernel" where
  "Clock_threads_list_wakeup_all lk =
     (if head_m (fst lk) = None then lk
      else Clock_threads_list_wakeup_all (Clock_threads_list_wakeup_one lk))"
  by pat_completeness auto
termination
  by (relation "measure (\<lambda>lk. length (nodes (fst lk)))")
    (auto simp: Clock_threads_list_wakeup_one_def Double_list_remove_def head_m_def
      split: list.splits)

declare Clock_threads_list_wakeup_all.simps [simp del]

subsection \<open>Sequences of list operations\<close>

text \<open>
  The calls a client can make on a list, and their effect on the list and the kernel
  state. A list state is reachable when a sequence of calls leads to it from the
  constructed list. \<open>add\<close> reads the priority of the node's thread in the thread table.
\<close>

datatype waiting_op =
  W_add Double_list_node_thread
| W_remove Double_list_node_thread
| W_clear
| W_wakeup_one
| W_wakeup_all

fun waiting_step ::
  "Double_list_node_thread Double_list \<times> kernel \<Rightarrow> waiting_op
    \<Rightarrow> Double_list_node_thread Double_list \<times> kernel" where
  "waiting_step lk (W_add n) = (Waiting_threads_list_add (threads (snd lk)) n (fst lk), snd lk)"
| "waiting_step lk (W_remove n) = (Double_list_remove n (fst lk), snd lk)"
| "waiting_step lk W_clear = (Double_list_clear (fst lk), snd lk)"
| "waiting_step lk W_wakeup_one = Waiting_threads_list_wakeup_one lk"
| "waiting_step lk W_wakeup_all = Waiting_threads_list_wakeup_all lk"

definition waiting_run ::
  "waiting_op list \<Rightarrow> kernel \<Rightarrow> Double_list_node_thread Double_list \<times> kernel" where
  "waiting_run ops k = foldl waiting_step (Double_list_ctor, k) ops"

datatype clock_op =
  C_add Double_list_node_clock
| C_remove Double_list_node_clock
| C_clear
| C_wakeup_one
| C_wakeup_all
| C_check_wakeup nat

fun clock_step ::
  "Double_list_node_clock Double_list \<times> kernel \<Rightarrow> clock_op
    \<Rightarrow> Double_list_node_clock Double_list \<times> kernel" where
  "clock_step lk (C_add n) = (Clock_threads_list_add n (fst lk), snd lk)"
| "clock_step lk (C_remove n) = (Double_list_remove n (fst lk), snd lk)"
| "clock_step lk C_clear = (Double_list_clear (fst lk), snd lk)"
| "clock_step lk C_wakeup_one = Clock_threads_list_wakeup_one lk"
| "clock_step lk C_wakeup_all = Clock_threads_list_wakeup_all lk"
| "clock_step lk (C_check_wakeup now) = Clock_threads_list_check_wakeup now lk"

definition clock_run ::
  "clock_op list \<Rightarrow> kernel \<Rightarrow> Double_list_node_clock Double_list \<times> kernel" where
  "clock_run ops k = foldl clock_step (Double_list_ctor, k) ops"

text \<open>Descending order of priority, from the head.\<close>

abbreviation prio_desc :: "(addr \<Rightarrow> Thread) \<Rightarrow> Double_list_node_thread list \<Rightarrow> bool" where
  "prio_desc th \<equiv> sorted_wrt (\<lambda>a b. node_prio th b \<le> node_prio th a)"

text \<open>
  What holds of the list and the kernel state after every call on a list of waiting
  threads: the list is in descending order of priority, and no call has changed a
  priority of the thread table \<open>k\<close> started from.
\<close>

definition waiting_inv :: "kernel \<Rightarrow> Double_list_node_thread Double_list \<times> kernel \<Rightarrow> bool" where
  "waiting_inv k lk \<longleftrightarrow>
     node_prio (threads (snd lk)) = node_prio (threads k)
     \<and> prio_desc (threads k) (nodes (fst lk))"

text \<open>Ascending order of deadline, from the head.\<close>

abbreviation ts_asc :: "Double_list_node_clock list \<Rightarrow> bool" where
  "ts_asc \<equiv> sorted_wrt (\<lambda>a b. timestamp (node a) \<le> timestamp (node b))"

text \<open>The kernel state after waking up a sequence of threads, one after the other.\<close>

definition wakeup_threads :: "addr list \<Rightarrow> kernel \<Rightarrow> kernel" where
  "wakeup_threads ts k = foldl (\<lambda>k t. thread_wakeup t k) k ts"

subsection \<open>ListGuard\<close>

text \<open>
  \<^verbatim>\<open>
  template<typename CS_T, typename List_T, typename Node_T>
    ListGuard<CS_T, List_T, Node_T>::ListGuard (List& list, Node& node) :
        list_ (list), node_ (node)
    {
      Critical_section cs;
      list.add (node);
    }

  template<typename CS_T, typename List_T, typename Node_T>
    ListGuard<CS_T, List_T, Node_T>::~ListGuard ()
    {
      Critical_section cs;
      list_.remove (node_);
    }
  \<close>
  The state the guard acts on: the list with the kernel state its calls change, the
  number of critical sections that are open, and a record of the calls that the guard
  made on the list, each with whether a critical section was open at the call. The
  object \<open>cs\<close> opens a critical section where it is declared and closes it at the end
  of the block. The members \<open>add\<close> and \<open>remove\<close> of the template parameter \<open>List_T\<close>
  are parameters of the model.
\<close>

datatype 'n list_call = Call_add 'n | Call_remove 'n

record ('l, 'n) guard_state =
  guarded :: 'l
  cs_nesting :: nat
  call_log :: "('n list_call \<times> bool) list"

definition critical_section_enter :: "('l, 'n) guard_state \<Rightarrow> ('l, 'n) guard_state" where
  "critical_section_enter s = s\<lparr>cs_nesting := Suc (cs_nesting s)\<rparr>"

definition critical_section_exit :: "('l, 'n) guard_state \<Rightarrow> ('l, 'n) guard_state" where
  "critical_section_exit s = s\<lparr>cs_nesting := cs_nesting s - 1\<rparr>"

definition ListGuard_ctor ::
  "('n \<Rightarrow> 'l \<Rightarrow> 'l) \<Rightarrow> 'n \<Rightarrow> ('l, 'n) guard_state \<Rightarrow> ('l, 'n) guard_state" where
  "ListGuard_ctor add n s =
     (let s1 = critical_section_enter s;
          s2 = s1\<lparr>guarded := add n (guarded s1),
                  call_log := call_log s1 @ [(Call_add n, 0 < cs_nesting s1)]\<rparr>
      in critical_section_exit s2)"

definition ListGuard_dtor ::
  "('n \<Rightarrow> 'l \<Rightarrow> 'l) \<Rightarrow> 'n \<Rightarrow> ('l, 'n) guard_state \<Rightarrow> ('l, 'n) guard_state" where
  "ListGuard_dtor remove n s =
     (let s1 = critical_section_enter s;
          s2 = s1\<lparr>guarded := remove n (guarded s1),
                  call_log := call_log s1 @ [(Call_remove n, 0 < cs_nesting s1)]\<rparr>
      in critical_section_exit s2)"

text \<open>
  \<open>Clock_threads_list_guard\<close> is \<open>ListGuard\<close> with \<open>Clock_threads_list\<close> and
  \<open>Double_list_node_clock\<close>: \<open>add\<close> is \<open>Clock_threads_list::add\<close> and \<open>remove\<close> is
  the inherited \<open>Double_list::remove\<close>.
\<close>

type_synonym clock_guard_state =
  "(Double_list_node_clock Double_list \<times> kernel, Double_list_node_clock) guard_state"

definition Clock_threads_list_guard_ctor ::
  "Double_list_node_clock \<Rightarrow> clock_guard_state \<Rightarrow> clock_guard_state" where
  "Clock_threads_list_guard_ctor =
     ListGuard_ctor (\<lambda>n lk. (Clock_threads_list_add n (fst lk), snd lk))"

definition Clock_threads_list_guard_dtor ::
  "Double_list_node_clock \<Rightarrow> clock_guard_state \<Rightarrow> clock_guard_state" where
  "Clock_threads_list_guard_dtor =
     ListGuard_dtor (\<lambda>n lk. (Double_list_remove n (fst lk), snd lk))"

text \<open>
  A suspending call that wraps its timeout node in a guard: the guard is constructed,
  the thread is suspended, and the guard is destroyed when the call returns. While the
  thread is suspended, other threads and the tick interrupt make their calls on the
  list; \<open>during\<close> is the sequence of these calls, which decides why the thread is woken
  up.
\<close>

definition while_suspended :: "clock_op list \<Rightarrow> clock_guard_state \<Rightarrow> clock_guard_state" where
  "while_suspended during s = s\<lparr>guarded := foldl clock_step (guarded s) during\<rparr>"

definition guarded_wait ::
  "Double_list_node_clock \<Rightarrow> clock_op list \<Rightarrow> clock_guard_state \<Rightarrow> clock_guard_state" where
  "guarded_wait n during s =
     Clock_threads_list_guard_dtor n (while_suspended during (Clock_threads_list_guard_ctor n s))"

definition linked :: "Double_list_node_clock \<Rightarrow> clock_guard_state \<Rightarrow> bool" where
  "linked n s = (n \<in> set (nodes (fst (guarded s))))"

text \<open>
  The calls that take a node off the list of timeouts: a \<open>remove\<close> of that node, a
  \<open>clear\<close>, a \<open>wakeup_all\<close>, a \<open>wakeup_one\<close> when the node is the head, and a
  \<open>check_wakeup\<close> at or after the deadline of the node. No call of a sequence takes
  the node off when none of them is such a call in the state in which it is made.
\<close>

fun takes_off ::
  "Double_list_node_clock \<Rightarrow> Double_list_node_clock Double_list \<times> kernel \<Rightarrow> clock_op \<Rightarrow> bool"
  where
  "takes_off n lk (C_add m) = False"
| "takes_off n lk (C_remove m) = (m = n)"
| "takes_off n lk C_clear = True"
| "takes_off n lk C_wakeup_one = (head_m (fst lk) = Some n)"
| "takes_off n lk C_wakeup_all = True"
| "takes_off n lk (C_check_wakeup now) = (timestamp (node n) \<le> now)"

fun none_takes_off ::
  "Double_list_node_clock \<Rightarrow> Double_list_node_clock Double_list \<times> kernel \<Rightarrow> clock_op list
    \<Rightarrow> bool" where
  "none_takes_off n lk [] = True"
| "none_takes_off n lk (op # ops) =
     (\<not> takes_off n lk op \<and> none_takes_off n (clock_step lk op) ops)"

section \<open>Mutex (os-c-api.h)\<close>

text \<open>
  \<open>os_result_t\<close>: \<open>os_ok\<close> or one of the POSIX error values that the functions of
  os-c-api.h document.
\<close>

datatype os_result =
  os_ok | EPERM | EINVAL | EAGAIN | EWOULDBLOCK | ETIMEDOUT | EINTR | EMSGSIZE
| EDEADLK | EOWNERDEAD | ENOTRECOVERABLE | EBADMSG | ENOMEM

datatype os_mutex_type = os_mutex_type_normal | os_mutex_type_errorcheck | os_mutex_type_recursive

datatype os_mutex_protocol = os_mutex_protocol_none | os_mutex_protocol_inherit
  | os_mutex_protocol_protect

datatype os_mutex_robustness = os_mutex_robustness_stalled | os_mutex_robustness_robust

datatype os_mutex_consistency = consistent | inconsistent | not_recoverable



section \<open>The links of a list in memory (os-lists.h)\<close>

text \<open>
  \<^verbatim>\<open>
  class Double_list_links { ... Double_list_links* prev; Double_list_links* next; };

  inline Double_list_links::Double_list_links ()
  {
    prev = nullptr;
    next = nullptr;
  }
  \<close>
  The memory holds a links object at each address. (\<open>next\<close> is a keyword here: the
  members \<open>prev\<close> and \<open>next\<close> are \<open>l_prev\<close> and \<open>l_next\<close>.)
\<close>

record Double_list_links =
  l_prev :: ptr
  l_next :: ptr

definition Double_list_links_ctor :: Double_list_links where
  "Double_list_links_ctor = \<lparr>l_prev = None, l_next = None\<rparr>"

type_synonym links_memory = "addr \<Rightarrow> Double_list_links"

text \<open>
  The data members of \<open>Double_list\<close>, as declared:
  \<^verbatim>\<open>
      /**
       * @brief Pointer to the list first node.
       * @details
       * For empty lists, this value is 'nullptr'.
       */
      Double_list_links* volatile head_;

      /**
       * @brief Count of nodes in the list.
       */
      std::size_t volatile count_;
  \<close>
  (\<open>head_p\<close> and \<open>count_p\<close> here). The list object holds a pointer to its first node and
  no links object of its own.
\<close>

record Double_list_mem =
  head_p :: ptr
  count_p :: nat

text \<open>
  Modelled from the spec: the body of the constructor \<open>Double_list::Double_list ()\<close> is
  not in os-lists.h. The list is empty at first, which the declaration of \<open>head_\<close>
  documents as a null pointer.
\<close>

definition Double_list_mem_ctor :: Double_list_mem where
  "Double_list_mem_ctor = \<lparr>head_p = None, count_p = 0\<rparr>"



definition set_prev :: "addr \<Rightarrow> ptr \<Rightarrow> links_memory \<Rightarrow> links_memory" where
  "set_prev a v h = h(a := (h a)\<lparr>l_prev := v\<rparr>)"

definition set_next :: "addr \<Rightarrow> ptr \<Rightarrow> links_memory \<Rightarrow> links_memory" where
  "set_next a v h = h(a := (h a)\<lparr>l_next := v\<rparr>)"

text \<open>
  Modelled from the spec: the bodies of \<open>add\<close>, \<open>remove\<close> and \<open>clear\<close> are not in
  os-lists.h. Section 4.1: the list is circular and doubly linked, insertion and removal
  take constant time, and "a node is detachable by its own pointers alone". The first
  node of a list points to itself. Another node is linked behind a node \<open>after\<close> of the
  list, which the ordered insertion of the derived class has found, and becomes the
  head when it is to come first. The node removed has its pointers set to null, as a
  new node has, and a node whose pointers are null is not linked and is left alone.
\<close>

definition mem_add ::
  "addr \<Rightarrow> addr \<Rightarrow> bool \<Rightarrow> Double_list_mem \<times> links_memory \<Rightarrow> Double_list_mem \<times> links_memory"
  where
  "mem_add n after as_head lh =
     (case head_p (fst lh) of
        None \<Rightarrow>
          (\<lparr>head_p = Some n, count_p = 1\<rparr>,
           set_next n (Some n) (set_prev n (Some n) (snd lh)))
      | Some p \<Rightarrow>
          (case l_next (snd lh after) of
             None \<Rightarrow> lh
           | Some b \<Rightarrow>
               (\<lparr>head_p = (if as_head then Some n else Some p),
                 count_p = count_p (fst lh) + 1\<rparr>,
                set_next after (Some n)
                  (set_prev b (Some n)
                    (set_next n (Some b)
                      (set_prev n (Some after) (snd lh)))))))"

definition mem_remove ::
  "addr \<Rightarrow> Double_list_mem \<times> links_memory \<Rightarrow> Double_list_mem \<times> links_memory" where
  "mem_remove n lh =
     (case (l_prev (snd lh n), l_next (snd lh n)) of
        (Some a, Some b) \<Rightarrow>
          (\<lparr>head_p = (if head_p (fst lh) = Some n
                       then (if b = n then None else Some b)
                       else head_p (fst lh)),
            count_p = count_p (fst lh) - 1\<rparr>,
           (set_prev b (Some a) (set_next a (Some b) (snd lh)))(n := Double_list_links_ctor))
      | _ \<Rightarrow> lh)"

definition mem_clear ::
  "Double_list_mem \<times> links_memory \<Rightarrow> Double_list_mem \<times> links_memory" where
  "mem_clear lh = (\<lparr>head_p = None, count_p = 0\<rparr>, snd lh)"

text \<open>
  The nodes met from an address following \<open>next\<close>, at most \<open>k\<close> of them, and the nodes
  of a list: those met from \<open>head_\<close> in \<open>count_\<close> steps.
\<close>

fun follow :: "links_memory \<Rightarrow> addr \<Rightarrow> nat \<Rightarrow> addr list" where
  "follow h p 0 = []"
| "follow h p (Suc k) = p # (case l_next (h p) of None \<Rightarrow> [] | Some q \<Rightarrow> follow h q k)"

definition mem_nodes :: "Double_list_mem \<times> links_memory \<Rightarrow> addr list" where
  "mem_nodes lh = (case head_p (fst lh) of None \<Rightarrow> [] | Some p \<Rightarrow> follow (snd lh) p (count_p (fst lh)))"

text \<open>
  A sequence of nodes is a ring when the nodes are distinct, each points with \<open>next\<close>
  to the node behind it, the last to the first, and each is pointed to with \<open>prev\<close>
  by the node behind it.
\<close>

definition links_ok :: "links_memory \<Rightarrow> addr \<Rightarrow> addr \<Rightarrow> bool" where
  "links_ok h a b \<longleftrightarrow> l_next (h a) = Some b \<and> l_prev (h b) = Some a"

definition ring :: "links_memory \<Rightarrow> addr list \<Rightarrow> bool" where
  "ring h xs \<longleftrightarrow> distinct xs \<and> (xs = [] \<or> successively (links_ok h) (xs @ [hd xs]))"

text \<open>
  The calls on a list in memory, and when a call respects what the list expects of its
  caller: a node to add is not linked (its pointers are null), the node to link it
  behind is a node of the list, and a node to remove is a node of the list or is not
  linked.
\<close>

datatype mem_op = M_add addr addr bool | M_remove addr | M_clear

fun mem_step :: "Double_list_mem \<times> links_memory \<Rightarrow> mem_op \<Rightarrow> Double_list_mem \<times> links_memory"
  where
  "mem_step lh (M_add n after as_head) = mem_add n after as_head lh"
| "mem_step lh (M_remove n) = mem_remove n lh"
| "mem_step lh M_clear = mem_clear lh"

fun mem_call_ok :: "Double_list_mem \<times> links_memory \<Rightarrow> mem_op \<Rightarrow> bool" where
  "mem_call_ok lh (M_add n after as_head) =
     (l_prev (snd lh n) = None \<and> l_next (snd lh n) = None
      \<and> (head_p (fst lh) = None \<or> after \<in> set (mem_nodes lh)))"
| "mem_call_ok lh (M_remove n) =
     (n \<in> set (mem_nodes lh) \<or> (l_prev (snd lh n) = None \<and> l_next (snd lh n) = None))"
| "mem_call_ok lh M_clear = True"

fun mem_calls_ok :: "Double_list_mem \<times> links_memory \<Rightarrow> mem_op list \<Rightarrow> bool" where
  "mem_calls_ok lh [] = True"
| "mem_calls_ok lh (op # ops) = (mem_call_ok lh op \<and> mem_calls_ok (mem_step lh op) ops)"

definition mem_run :: "links_memory \<Rightarrow> mem_op list \<Rightarrow> Double_list_mem \<times> links_memory" where
  "mem_run h ops = foldl mem_step (Double_list_mem_ctor, h) ops"

text \<open>
  The state of a list in memory is well formed when an empty list has a null head and
  a zero counter, and the nodes of a list that is not empty are as many as the counter
  says and form a ring.
\<close>

definition mem_inv :: "Double_list_mem \<times> links_memory \<Rightarrow> bool" where
  "mem_inv lh \<longleftrightarrow>
     (head_p (fst lh) = None \<longleftrightarrow> count_p (fst lh) = 0)
     \<and> length (mem_nodes lh) = count_p (fst lh)
     \<and> ring (snd lh) (mem_nodes lh)"


text \<open>
  A sequence of nodes stands for the state of a list in memory when it is a ring in
  that memory, has as many nodes as the counter says, and holds the node that the head
  points to; it is empty when the head is null.
\<close>

definition mem_abs :: "Double_list_mem \<times> links_memory \<Rightarrow> addr list \<Rightarrow> bool" where
  "mem_abs lh xs \<longleftrightarrow>
     ring (snd lh) xs \<and> count_p (fst lh) = length xs
     \<and> (case head_p (fst lh) of None \<Rightarrow> xs = [] | Some p \<Rightarrow> p \<in> set xs)"

section \<open>Properties of the memory resources\<close>

text \<open>
  C8. The default bodies of the optional operations are the ineffective cases: for a
  class that overrides none of them, \<open>do_max_size\<close> yields 0, \<open>do_reset\<close> leaves the
  object as it is, and \<open>do_coalesce\<close> yields false and leaves the object as it is.
\<close>

theorem memory_resource_optional_defaults:
  "max_size_override c = None \<Longrightarrow> reset_override c = None \<Longrightarrow>
   coalesce_override c = None \<Longrightarrow>
   call_do_max_size c this = 0
   \<and> call_do_reset c this = this
   \<and> call_do_coalesce c this = (False, this)"
  by (simp add: call_do_max_size_def call_do_reset_def call_do_coalesce_def
      do_max_size_def do_reset_def do_coalesce_def)

theorem memory_resource_optional_defaults_witness:
  "call_do_max_size
     \<lparr>max_size_override = None, reset_override = None, coalesce_override = None\<rparr> (7::nat) = 0
   \<and> call_do_reset
     \<lparr>max_size_override = None, reset_override = None, coalesce_override = None\<rparr> (7::nat) = 7
   \<and> call_do_coalesce
     \<lparr>max_size_override = None, reset_override = None, coalesce_override = None\<rparr> (7::nat)
       = (False, 7)"
  using memory_resource_optional_defaults
    [of "\<lparr>max_size_override = None, reset_override = None, coalesce_override = None\<rparr>" "7::nat"]
  by simp

text \<open>
  C9. \<open>set_default_resource res\<close> installs \<open>res\<close>, null included, and returns the
  previous default; a second call with the returned pointer returns \<open>res\<close> and
  restores the original default.
\<close>

theorem set_default_resource_roundtrip:
  "fst (set_default_resource res g) = default_resource g
   \<and> default_resource (snd (set_default_resource res g)) = res
   \<and> fst (set_default_resource (fst (set_default_resource res g))
            (snd (set_default_resource res g))) = res
   \<and> default_resource
        (snd (set_default_resource (fst (set_default_resource res g))
               (snd (set_default_resource res g)))) = default_resource g"
  by (simp add: set_default_resource_def Let_def)

text \<open>
  C10. The default \<open>do_is_equal\<close> is identity of objects: it holds exactly when both
  are the same object, so it is reflexive and symmetric, and two distinct objects are
  never equal.
\<close>

theorem do_is_equal_identity:
  "(do_is_equal a b \<longleftrightarrow> a = b)
   \<and> do_is_equal a a
   \<and> (do_is_equal a b \<longleftrightarrow> do_is_equal b a)
   \<and> (a \<noteq> b \<longrightarrow> \<not> do_is_equal a b)"
  by (auto simp: do_is_equal_def)

theorem do_is_equal_identity_witness:
  "(1::nat) \<noteq> 2 \<and> \<not> do_is_equal 1 2 \<and> do_is_equal 1 1"
  using do_is_equal_identity [of 1 2] by simp

section \<open>Properties of the clock conversions\<close>

lemma ceil_div_nat:
  assumes "0 < b"
  shows "nat \<lceil>real a / real b\<rceil> = (a + b - 1) div b"
proof -
  define n where "n = (a + b - 1) div b"
  have lo: "n * b \<le> a + b - 1"
    unfolding n_def by (rule div_times_less_eq_dividend)
  have hi: "a + b - 1 < n * b + b"
    unfolding n_def using assms dividend_less_div_times [of b "a + b - 1"] by (simp add: ac_simps)
  from lo assms have "n * b < a + b" by linarith
  then have "real (n * b) < real (a + b)" by (simp only: of_nat_less_iff)
  then have l: "(real n - 1) * real b < real a" by (simp add: algebra_simps)
  from hi assms have "a \<le> n * b" by linarith
  then have "real a \<le> real (n * b)" by (simp only: of_nat_le_iff)
  then have u: "real a \<le> real n * real b" by simp
  have b0: "0 < real b" using assms by simp
  have 1: "real_of_int (int n) - 1 < real a / real b"
    using l b0 by (simp add: pos_less_divide_eq)
  have 2: "real a / real b \<le> real_of_int (int n)"
    using u b0 by (simp add: pos_divide_le_eq)
  have "\<lceil>real a / real b\<rceil> = int n" using 1 2 by (rule ceiling_unique)
  then show ?thesis by (simp add: n_def)
qed

lemma ticks_round_up_div: "ticks_round_up hz m = (m * hz + 999999) div 1000000"
  unfolding ticks_round_up_def using ceil_div_nat [of 1000000 "m * hz"] by simp

lemma unat_cast32:
  assumes "unat (m :: 32 word) * hz + 999999 < 2 ^ 32"
  shows "unat ((m * (of_nat hz :: 32 word) + 1000000 - 1) div 1000000) = (unat m * hz + 999999) div 1000000"
proof -
  have e: "of_nat (unat m * hz + 999999) = m * (of_nat hz :: 32 word) + 1000000 - 1"
    by simp
  have "unat (m * (of_nat hz :: 32 word) + 1000000 - 1) = unat m * hz + 999999"
    by (rule of_nat_inverse [OF e]) (use assms in simp)
  moreover have "unat (1000000 :: 32 word) = 1000000" by simp
  ultimately show ?thesis by (simp only: unat_div)
qed

lemma unat_cast64:
  assumes "unat (m :: 64 word) * hz + 999999 < 2 ^ 64"
  shows "unat ((m * (of_nat hz :: 64 word) + 1000000 - 1) div 1000000) = (unat m * hz + 999999) div 1000000"
proof -
  have e: "of_nat (unat m * hz + 999999) = m * (of_nat hz :: 64 word) + 1000000 - 1"
    by simp
  have "unat (m * (of_nat hz :: 64 word) + 1000000 - 1) = unat m * hz + 999999"
    by (rule of_nat_inverse [OF e]) (use assms in simp)
  moreover have "unat (1000000 :: 64 word) = 1000000" by simp
  ultimately show ?thesis by (simp only: unat_div)
qed

lemma unat_ucast_small: "unat (w :: 'a::len word) < 2 ^ LENGTH('d) \<Longrightarrow> unat (ucast w :: 'd::len word) = unat w"
  by (simp add: unsigned_ucast_eq take_bit_nat_eq_self)

text \<open>
  C5, as stated, fails where the fixed-width product or sum wraps around: at 1000 Hz,
  4294968 microseconds give 1 tick instead of 4295, and the 64-bit variant gives 1 tick
  for 18446744073709552 microseconds instead of 18446744073710.
\<close>

theorem os_sysclock_ticks_cast_wraps:
  "unat (os_sysclock_ticks_cast 1000 4294968 :: 32 word) = 1
   \<and> ticks_round_up 1000 4294968 = 4295
   \<and> unat (os_sysclock_ticks_cast_long 1000 18446744073709552 :: 64 word) = 1
   \<and> ticks_round_up 1000 18446744073709552 = 18446744073710"
  by (simp add: os_sysclock_ticks_cast_def os_sysclock_ticks_cast_long_def ticks_round_up_div)

lemma wrapped_div_less:
  fixes V W b :: nat
  assumes "W \<le> V" and "b \<le> W" and "0 < b"
  shows "(V mod W) div b < V div b"
proof -
  from assms have "0 < W" by simp
  have "V mod W = (V - W) mod W" using assms(1) by (rule le_mod_geq)
  also have "\<dots> \<le> V - W" by (rule mod_less_eq_dividend)
  finally have "V mod W + b \<le> V" using assms by linarith
  then have "(V mod W + b) div b \<le> V div b" by (rule div_le_mono)
  moreover have "(V mod W + b) div b = V mod W div b + 1" using assms(3) by simp
  ultimately show ?thesis by linarith
qed

lemma round_up_cases:
  fixes V W L b :: nat
  assumes "b \<le> W" and "0 < b" and "0 < L"
  shows "(V < W \<and> V div b < L \<longrightarrow> ((V mod W) div b) mod L = V div b)
    \<and> (\<not> (V < W \<and> V div b < L) \<longrightarrow> ((V mod W) div b) mod L < V div b)"
proof (intro conjI impI)
  assume "V < W \<and> V div b < L"
  then show "((V mod W) div b) mod L = V div b" by simp
next
  assume n: "\<not> (V < W \<and> V div b < L)"
  show "((V mod W) div b) mod L < V div b"
  proof (cases "V < W")
    case True
    with n have "L \<le> V div b" by simp
    moreover have "((V mod W) div b) mod L < L" using assms(3) by simp
    ultimately show ?thesis by linarith
  next
    case False
    then have "(V mod W) div b < V div b"
      using assms by (intro wrapped_div_less) simp_all
    moreover have "((V mod W) div b) mod L \<le> (V mod W) div b" by (rule mod_less_eq_dividend)
    ultimately show ?thesis by linarith
  qed
qed

lemma unat_ticks_cast:
  "unat (os_sysclock_ticks_cast hz m :: 'd::len word)
     = (((unat m * hz + 999999) mod 2 ^ 32) div 1000000) mod 2 ^ LENGTH('d)"
proof -
  have e: "m * (of_nat hz :: 32 word) + 1000000 - 1 = of_nat (unat m * hz + 999999)"
    by simp
  have "unat (m * (of_nat hz :: 32 word) + 1000000 - 1) = (unat m * hz + 999999) mod 2 ^ 32"
    by (simp only: e unat_of_nat) simp
  moreover have "unat (1000000 :: 32 word) = 1000000" by simp
  ultimately have "unat ((m * (of_nat hz :: 32 word) + 1000000 - 1) div 1000000)
      = ((unat m * hz + 999999) mod 2 ^ 32) div 1000000"
    by (simp only: unat_div)
  then show ?thesis
    by (simp add: os_sysclock_ticks_cast_def unsigned_ucast_eq take_bit_eq_mod)
qed

lemma unat_ticks_cast_long:
  "unat (os_sysclock_ticks_cast_long hz m :: 'd::len word)
     = (((unat m * hz + 999999) mod 2 ^ 64) div 1000000) mod 2 ^ LENGTH('d)"
proof -
  have e: "m * (of_nat hz :: 64 word) + 1000000 - 1 = of_nat (unat m * hz + 999999)"
    by simp
  have "unat (m * (of_nat hz :: 64 word) + 1000000 - 1) = (unat m * hz + 999999) mod 2 ^ 64"
    by (simp only: e unat_of_nat) simp
  moreover have "unat (1000000 :: 64 word) = 1000000" by simp
  ultimately have "unat ((m * (of_nat hz :: 64 word) + 1000000 - 1) div 1000000)
      = ((unat m * hz + 999999) mod 2 ^ 64) div 1000000"
    by (simp only: unat_div)
  then show ?thesis
    by (simp add: os_sysclock_ticks_cast_long_def unsigned_ucast_eq take_bit_eq_mod)
qed

text \<open>
  C5, amended. When \<open>microsec * hz + 999999\<close> fits the width of the computation (32
  bits, 64 bits for the long variant) and the rounded-up quotient fits the result type,
  the conversion returns exactly the round-up of \<open>microsec * hz / 1000000\<close>; in every
  other case it returns less than that round-up.
\<close>

theorem os_sysclock_ticks_cast_round_up:
  "(unat m32 * hz + 999999 < 2 ^ 32 \<and> ticks_round_up hz (unat m32) < 2 ^ LENGTH('d) \<longrightarrow>
      unat (os_sysclock_ticks_cast hz m32 :: 'd::len word) = ticks_round_up hz (unat m32))
   \<and> (\<not> (unat m32 * hz + 999999 < 2 ^ 32 \<and> ticks_round_up hz (unat m32) < 2 ^ LENGTH('d)) \<longrightarrow>
      unat (os_sysclock_ticks_cast hz m32 :: 'd::len word) < ticks_round_up hz (unat m32))
   \<and> (unat m64 * hz + 999999 < 2 ^ 64 \<and> ticks_round_up hz (unat m64) < 2 ^ LENGTH('d) \<longrightarrow>
      unat (os_sysclock_ticks_cast_long hz m64 :: 'd::len word) = ticks_round_up hz (unat m64))
   \<and> (\<not> (unat m64 * hz + 999999 < 2 ^ 64 \<and> ticks_round_up hz (unat m64) < 2 ^ LENGTH('d)) \<longrightarrow>
      unat (os_sysclock_ticks_cast_long hz m64 :: 'd::len word) < ticks_round_up hz (unat m64))"
proof -
  have a: "(1000000::nat) \<le> 2 ^ 32" and b: "(1000000::nat) \<le> 2 ^ 64" by simp_all
  have l: "(0::nat) < 2 ^ LENGTH('d)" by simp
  have z: "(0::nat) < 1000000" by simp
  note c32 = round_up_cases [OF a z l, of "unat m32 * hz + 999999"]
  note c64 = round_up_cases [OF b z l, of "unat m64 * hz + 999999"]
  show ?thesis
    unfolding unat_ticks_cast unat_ticks_cast_long ticks_round_up_div
    using c32 c64 by blast
qed

theorem os_sysclock_ticks_cast_round_up_witness:
  "unat (1500 :: 32 word) * 1000 + 999999 < 2 ^ 32
   \<and> ticks_round_up 1000 (unat (1500 :: 32 word)) < 2 ^ LENGTH(32)
   \<and> unat (os_sysclock_ticks_cast 1000 1500 :: 32 word) = 2
   \<and> \<not> unat (5000000 :: 32 word) * 1000 + 999999 < 2 ^ 32
   \<and> unat (os_sysclock_ticks_cast 1000 5000000 :: 32 word) < 5000
   \<and> unat (5000000001 :: 64 word) * 1000 + 999999 < 2 ^ 64
   \<and> ticks_round_up 1000 (unat (5000000001 :: 64 word)) < 2 ^ LENGTH(32)
   \<and> unat (os_sysclock_ticks_cast_long 1000 5000000001 :: 32 word) = 5000001
   \<and> \<not> ticks_round_up 1000 (unat (5000000000000 :: 64 word)) < 2 ^ LENGTH(32)
   \<and> unat (os_sysclock_ticks_cast_long 1000 5000000000000 :: 32 word) < 5000000000"
  using os_sysclock_ticks_cast_round_up [of 1500 1000 5000000001, where 'd = 32]
    os_sysclock_ticks_cast_round_up [of 5000000 1000 5000000000000, where 'd = 32]
  by (simp add: ticks_round_up_div)

section \<open>Properties of the list of waiting threads\<close>

lemma set_insert_by_prio: "set (insert_by_prio th n xs) = insert n (set xs)"
  by (induction xs) auto

lemma length_insert_by_prio: "length (insert_by_prio th n xs) = Suc (length xs)"
  by (induction xs) auto

lemma sorted_insert_by_prio:
  "prio_desc th xs \<Longrightarrow> prio_desc th (insert_by_prio th n xs)"
  by (induction xs) (auto simp: set_insert_by_prio)

lemma insert_by_prio_split:
  "prio_desc th xs \<Longrightarrow>
   insert_by_prio th n xs =
     filter (\<lambda>m. node_prio th n \<le> node_prio th m) xs @ [n]
     @ filter (\<lambda>m. node_prio th m < node_prio th n) xs"
proof (induction xs)
  case Nil
  then show ?case by simp
next
  case (Cons m ms)
  show ?case
  proof (cases "node_prio th m < node_prio th n")
    case True
    with Cons.prems have "\<forall>x \<in> set (m # ms). node_prio th x < node_prio th n"
      by auto
    then have "filter (\<lambda>x. node_prio th n \<le> node_prio th x) (m # ms) = []"
      and "filter (\<lambda>x. node_prio th x < node_prio th n) (m # ms) = m # ms"
      by (auto simp: filter_empty_conv filter_id_conv)
    with True show ?thesis by simp
  next
    case False
    with Cons show ?thesis by simp
  qed
qed

lemma filter_insert_by_prio:
  "prio_desc th xs \<Longrightarrow>
   filter (\<lambda>m. node_prio th m = p) (insert_by_prio th n xs) =
     filter (\<lambda>m. node_prio th m = p) xs @ (if node_prio th n = p then [n] else [])"
proof (induction xs)
  case Nil
  then show ?case by simp
next
  case (Cons m ms)
  show ?case
  proof (cases "node_prio th m < node_prio th n")
    case True
    with Cons.prems have "\<forall>x \<in> set (m # ms). node_prio th x \<noteq> node_prio th n"
      by auto
    then have "node_prio th n = p \<Longrightarrow> filter (\<lambda>x. node_prio th x = p) (m # ms) = []"
      by (auto simp: filter_empty_conv)
    with True show ?thesis by auto
  next
    case False
    with Cons show ?thesis by simp
  qed
qed

lemma insert_by_prio_cong:
  "node_prio th = node_prio th' \<Longrightarrow> insert_by_prio th n xs = insert_by_prio th' n xs"
  by (induction xs) simp_all

lemma sorted_wrt_remove1: "sorted_wrt P xs \<Longrightarrow> sorted_wrt P (remove1 n xs)"
proof (induction xs)
  case Nil
  then show ?case by simp
next
  case (Cons x xs)
  have "set (remove1 n xs) \<subseteq> set xs" by (rule set_remove1_subset)
  with Cons show ?case by auto
qed

lemma nodes_remove: "nodes (Double_list_remove n l) = remove1 n (nodes l)"
  by (simp add: Double_list_remove_def remove1_idem)

lemma dyn_prio_thread_wakeup: "dyn_prio (threads (thread_wakeup t k) u) = dyn_prio (threads k u)"
  by (simp add: thread_wakeup_def)

lemma node_prio_thread_wakeup: "node_prio (threads (thread_wakeup t k)) = node_prio (threads k)"
  by (rule ext) (simp add: node_prio_def dyn_prio_thread_wakeup)

lemma waiting_inv_wakeup_one:
  "waiting_inv k lk \<Longrightarrow> waiting_inv k (Waiting_threads_list_wakeup_one lk)"
  by (auto simp: waiting_inv_def Waiting_threads_list_wakeup_one_def nodes_remove
      node_prio_thread_wakeup sorted_wrt_remove1 split: option.splits)

lemma waiting_inv_wakeup_all:
  "waiting_inv k lk \<Longrightarrow> waiting_inv k (Waiting_threads_list_wakeup_all lk)"
proof (induction lk rule: Waiting_threads_list_wakeup_all.induct)
  case (1 lk)
  show ?case
  proof (cases "head_m (fst lk) = None")
    case True
    with "1.prems" show ?thesis
      by (subst Waiting_threads_list_wakeup_all.simps) simp
  next
    case False
    have "waiting_inv k (Waiting_threads_list_wakeup_one lk)"
      using "1.prems" by (rule waiting_inv_wakeup_one)
    then have "waiting_inv k (Waiting_threads_list_wakeup_all (Waiting_threads_list_wakeup_one lk))"
      using False by (rule "1.IH" [rotated])
    with False show ?thesis
      by (subst Waiting_threads_list_wakeup_all.simps) auto
  qed
qed

lemma waiting_inv_step: "waiting_inv k lk \<Longrightarrow> waiting_inv k (waiting_step lk op)"
proof (cases op)
  case (W_add n)
  assume "waiting_inv k lk"
  then show ?thesis
    by (simp add: W_add waiting_inv_def Waiting_threads_list_add_def sorted_insert_by_prio
        insert_by_prio_cong [of "threads (snd lk)" "threads k"])
next
  case (W_remove n)
  assume "waiting_inv k lk"
  then show ?thesis
    by (simp add: W_remove waiting_inv_def nodes_remove sorted_wrt_remove1)
next
  case W_clear
  assume "waiting_inv k lk"
  then show ?thesis by (simp add: W_clear waiting_inv_def Double_list_clear_def)
next
  case W_wakeup_one
  assume "waiting_inv k lk"
  then show ?thesis by (simp add: W_wakeup_one waiting_inv_wakeup_one)
next
  case W_wakeup_all
  assume "waiting_inv k lk"
  then show ?thesis by (simp add: W_wakeup_all waiting_inv_wakeup_all)
qed

lemma waiting_inv_foldl:
  "waiting_inv k lk \<Longrightarrow> waiting_inv k (foldl waiting_step lk ops)"
  by (induction ops arbitrary: lk) (simp_all add: waiting_inv_step)

lemma waiting_inv_run: "waiting_inv k (waiting_run ops k)"
  unfolding waiting_run_def
  by (rule waiting_inv_foldl) (simp add: waiting_inv_def Double_list_ctor_def)

lemma waiting_run_snoc: "waiting_run (ops @ [op]) k = waiting_step (waiting_run ops k) op"
  by (simp add: waiting_run_def)

lemma snd_waiting_run_adds: "snd (waiting_run (map W_add ns) k) = k"
  by (induction ns rule: rev_induct) (simp_all add: waiting_run_def)

lemma filter_waiting_run_adds:
  "filter (\<lambda>n. node_prio (threads k) n = p) (nodes (fst (waiting_run (map W_add ns) k)))
     = filter (\<lambda>n. node_prio (threads k) n = p) ns"
proof (induction ns rule: rev_induct)
  case Nil
  then show ?case by (simp add: waiting_run_def Double_list_ctor_def)
next
  case (snoc n ns)
  have s: "prio_desc (threads k) (nodes (fst (waiting_run (map W_add ns) k)))"
    using waiting_inv_run [of k "map W_add ns"] by (simp add: waiting_inv_def)
  show ?case
    using snoc
    by (simp add: waiting_run_snoc snd_waiting_run_adds Waiting_threads_list_add_def
        filter_insert_by_prio [OF s])
qed

lemma set_waiting_run_adds: "set (nodes (fst (waiting_run (map W_add ns) k))) = set ns"
  by (induction ns rule: rev_induct)
    (simp_all add: waiting_run_def Double_list_ctor_def Waiting_threads_list_add_def
      set_insert_by_prio)

text \<open>
  C1. A list of waiting threads is in descending order of priority after any sequence
  of calls. After a sequence of \<open>add\<close> calls the nodes of each priority are in the order
  of their insertion, and \<open>wakeup_one\<close> on the list, when it is not empty, detaches the
  head node and marks its thread ready: no waiting thread has a higher priority, and
  the head is the first inserted among the nodes of its priority.
\<close>

theorem waiting_list_priority_fifo:
  "prio_desc (threads k) (nodes (fst (waiting_run ops k)))
   \<and> (\<forall>p. filter (\<lambda>n. node_prio (threads k) n = p) (nodes (fst (waiting_run (map W_add ns) k)))
            = filter (\<lambda>n. node_prio (threads k) n = p) ns)
   \<and> (ns \<noteq> [] \<longrightarrow>
        (\<exists>h rest.
           nodes (fst (waiting_run (map W_add ns) k)) = h # rest
           \<and> head_m (fst (waiting_run (map W_add ns) k)) = Some h
           \<and> nodes (fst (Waiting_threads_list_wakeup_one (waiting_run (map W_add ns) k))) = rest
           \<and> snd (Waiting_threads_list_wakeup_one (waiting_run (map W_add ns) k))
               = thread_wakeup (thread (node h)) k
           \<and> (\<forall>n \<in> set ns. node_prio (threads k) n \<le> node_prio (threads k) h)
           \<and> h = hd (filter (\<lambda>n. node_prio (threads k) n = node_prio (threads k) h) ns)))"
proof (intro conjI allI impI)
  show "prio_desc (threads k) (nodes (fst (waiting_run ops k)))"
    using waiting_inv_run [of k ops] by (simp add: waiting_inv_def)
next
  fix p
  show "filter (\<lambda>n. node_prio (threads k) n = p) (nodes (fst (waiting_run (map W_add ns) k)))
          = filter (\<lambda>n. node_prio (threads k) n = p) ns"
    by (rule filter_waiting_run_adds)
next
  assume ne: "ns \<noteq> []"
  define l where "l = fst (waiting_run (map W_add ns) k)"
  have lk: "waiting_run (map W_add ns) k = (l, k)"
    by (simp add: l_def prod_eq_iff snd_waiting_run_adds)
  have set_l: "set (nodes l) = set ns"
    unfolding l_def by (rule set_waiting_run_adds)
  with ne have "nodes l \<noteq> []" by auto
  then obtain h rest where hr: "nodes l = h # rest" by (cases "nodes l") auto
  have sorted: "prio_desc (threads k) (nodes l)"
    using waiting_inv_run [of k "map W_add ns"] by (simp add: waiting_inv_def l_def)
  have hd: "head_m l = Some h" by (simp add: head_m_def hr)
  have w: "Waiting_threads_list_wakeup_one (l, k)
             = (Double_list_remove h l, thread_wakeup (thread (node h)) k)"
    by (simp add: Waiting_threads_list_wakeup_one_def hd)
  have max: "\<forall>n \<in> set ns. node_prio (threads k) n \<le> node_prio (threads k) h"
    using sorted set_l hr by auto
  have "filter (\<lambda>n. node_prio (threads k) n = node_prio (threads k) h) ns
          = filter (\<lambda>n. node_prio (threads k) n = node_prio (threads k) h) (nodes l)"
    unfolding l_def by (rule filter_waiting_run_adds [symmetric])
  then have first: "h = hd (filter (\<lambda>n. node_prio (threads k) n = node_prio (threads k) h) ns)"
    by (simp add: hr)
  show "\<exists>h rest.
           nodes (fst (waiting_run (map W_add ns) k)) = h # rest
           \<and> head_m (fst (waiting_run (map W_add ns) k)) = Some h
           \<and> nodes (fst (Waiting_threads_list_wakeup_one (waiting_run (map W_add ns) k))) = rest
           \<and> snd (Waiting_threads_list_wakeup_one (waiting_run (map W_add ns) k))
               = thread_wakeup (thread (node h)) k
           \<and> (\<forall>n \<in> set ns. node_prio (threads k) n \<le> node_prio (threads k) h)
           \<and> h = hd (filter (\<lambda>n. node_prio (threads k) n = node_prio (threads k) h) ns)"
    unfolding lk
    using hr hd max first by (intro exI [of _ h] exI [of _ rest]) (simp add: w nodes_remove)
qed

theorem waiting_list_priority_fifo_witness:
  "[\<lparr>self = 1, node = \<lparr>thread = 50\<rparr>\<rparr>, \<lparr>self = 2, node = \<lparr>thread = 90\<rparr>\<rparr>,
    \<lparr>self = 3, node = \<lparr>thread = 91\<rparr>\<rparr>] \<noteq> []
   \<and> head_m (fst (waiting_run (map W_add
        [\<lparr>self = 1, node = \<lparr>thread = 50\<rparr>\<rparr>, \<lparr>self = 2, node = \<lparr>thread = 90\<rparr>\<rparr>,
         \<lparr>self = 3, node = \<lparr>thread = 91\<rparr>\<rparr>])
        \<lparr>threads = (\<lambda>a. \<lparr>dyn_prio = a div 10, state = st_suspended\<rparr>), woken = []\<rparr>))
       = Some \<lparr>self = 2, node = \<lparr>thread = 90\<rparr>\<rparr>
   \<and> nodes (fst (Waiting_threads_list_wakeup_one (waiting_run (map W_add
        [\<lparr>self = 1, node = \<lparr>thread = 50\<rparr>\<rparr>, \<lparr>self = 2, node = \<lparr>thread = 90\<rparr>\<rparr>,
         \<lparr>self = 3, node = \<lparr>thread = 91\<rparr>\<rparr>])
        \<lparr>threads = (\<lambda>a. \<lparr>dyn_prio = a div 10, state = st_suspended\<rparr>), woken = []\<rparr>)))
       = [\<lparr>self = 3, node = \<lparr>thread = 91\<rparr>\<rparr>, \<lparr>self = 1, node = \<lparr>thread = 50\<rparr>\<rparr>]
   \<and> node_prio (\<lambda>a. \<lparr>dyn_prio = a div 10, state = st_suspended\<rparr>)
        \<lparr>self = 3, node = \<lparr>thread = 91\<rparr>\<rparr>
       \<le> node_prio (\<lambda>a. \<lparr>dyn_prio = a div 10, state = st_suspended\<rparr>)
        \<lparr>self = 2, node = \<lparr>thread = 90\<rparr>\<rparr>"
  using waiting_list_priority_fifo
    [of "\<lparr>threads = (\<lambda>a. \<lparr>dyn_prio = a div 10, state = st_suspended\<rparr>), woken = []\<rparr>" "[]"
        "[\<lparr>self = 1, node = \<lparr>thread = 50\<rparr>\<rparr>, \<lparr>self = 2, node = \<lparr>thread = 90\<rparr>\<rparr>,
          \<lparr>self = 3, node = \<lparr>thread = 91\<rparr>\<rparr>]"]
  by (simp add: waiting_run_def Double_list_ctor_def Waiting_threads_list_add_def node_prio_def
      head_m_def)


section \<open>Properties of the list of timeouts\<close>

lemma set_insert_by_timestamp: "set (insert_by_timestamp n xs) = insert n (set xs)"
  by (induction xs) auto

lemma sorted_insert_by_timestamp: "ts_asc xs \<Longrightarrow> ts_asc (insert_by_timestamp n xs)"
  by (induction xs) (auto simp: set_insert_by_timestamp)

lemma takeWhile_expired:
  "ts_asc xs \<Longrightarrow>
   takeWhile (\<lambda>m. timestamp (node m) \<le> now) xs = filter (\<lambda>m. timestamp (node m) \<le> now) xs"
proof (induction xs)
  case Nil
  then show ?case by simp
next
  case (Cons x xs)
  show ?case
  proof (cases "timestamp (node x) \<le> now")
    case True
    with Cons show ?thesis by simp
  next
    case False
    with Cons.prems have "\<forall>y \<in> set xs. \<not> timestamp (node y) \<le> now" by auto
    then have "filter (\<lambda>m. timestamp (node m) \<le> now) xs = []"
      by (simp add: filter_empty_conv)
    with False show ?thesis by simp
  qed
qed

lemma dropWhile_expired:
  "ts_asc xs \<Longrightarrow>
   dropWhile (\<lambda>m. timestamp (node m) \<le> now) xs = filter (\<lambda>m. now < timestamp (node m)) xs"
proof (induction xs)
  case Nil
  then show ?case by simp
next
  case (Cons x xs)
  show ?case
  proof (cases "timestamp (node x) \<le> now")
    case True
    with Cons show ?thesis by simp
  next
    case False
    with Cons.prems have "\<forall>y \<in> set xs. now < timestamp (node y)" by auto
    then have "filter (\<lambda>m. now < timestamp (node m)) xs = xs"
      by (simp add: filter_id_conv)
    with False show ?thesis by simp
  qed
qed

lemma check_wakeup_eq:
  "nodes l = xs \<Longrightarrow>
   Clock_threads_list_check_wakeup now (l, k) =
     (l\<lparr>nodes := dropWhile (\<lambda>m. timestamp (node m) \<le> now) xs,
        count_m := count_m l - length (takeWhile (\<lambda>m. timestamp (node m) \<le> now) xs)\<rparr>,
      wakeup_threads (map (\<lambda>m. clock_thread (node m))
        (takeWhile (\<lambda>m. timestamp (node m) \<le> now) xs)) k)"
proof (induction xs arbitrary: l k)
  case Nil
  then show ?case
    by (subst Clock_threads_list_check_wakeup.simps) (simp add: head_m_def wakeup_threads_def)
next
  case (Cons h rest)
  show ?case
  proof (cases "timestamp (node h) \<le> now")
    case True
    have n: "nodes (Double_list_remove h l) = rest"
      using Cons.prems by (simp add: Double_list_remove_def)
    have w: "Clock_threads_list_wakeup_one (l, k)
               = (Double_list_remove h l, thread_wakeup (clock_thread (node h)) k)"
      using Cons.prems by (simp add: Clock_threads_list_wakeup_one_def head_m_def)
    have "Clock_threads_list_check_wakeup now (l, k)
            = Clock_threads_list_check_wakeup now
                (Double_list_remove h l, thread_wakeup (clock_thread (node h)) k)"
      using Cons.prems True
      by (subst Clock_threads_list_check_wakeup.simps) (simp add: head_m_def w)
    also note Cons.IH [OF n]
    finally show ?thesis
      using Cons.prems True by (simp add: Double_list_remove_def wakeup_threads_def)
  next
    case False
    with Cons.prems show ?thesis
      by (subst Clock_threads_list_check_wakeup.simps) (simp add: head_m_def wakeup_threads_def)
  qed
qed

lemma clock_wakeup_all_eq:
  "nodes l = xs \<Longrightarrow>
   Clock_threads_list_wakeup_all (l, k) =
     (l\<lparr>nodes := [], count_m := count_m l - length xs\<rparr>,
      wakeup_threads (map (\<lambda>m. clock_thread (node m)) xs) k)"
proof (induction xs arbitrary: l k)
  case Nil
  then show ?case
    by (subst Clock_threads_list_wakeup_all.simps) (simp add: head_m_def wakeup_threads_def)
next
  case (Cons h rest)
  have n: "nodes (Double_list_remove h l) = rest"
    using Cons.prems by (simp add: Double_list_remove_def)
  have w: "Clock_threads_list_wakeup_one (l, k)
             = (Double_list_remove h l, thread_wakeup (clock_thread (node h)) k)"
    using Cons.prems by (simp add: Clock_threads_list_wakeup_one_def head_m_def)
  have "Clock_threads_list_wakeup_all (l, k)
          = Clock_threads_list_wakeup_all
              (Double_list_remove h l, thread_wakeup (clock_thread (node h)) k)"
    using Cons.prems
    by (subst Clock_threads_list_wakeup_all.simps) (simp add: head_m_def w)
  also note Cons.IH [OF n]
  finally show ?case
    using Cons.prems by (simp add: Double_list_remove_def wakeup_threads_def)
qed

lemma nodes_clock_wakeup_all: "nodes (fst (Clock_threads_list_wakeup_all lk)) = []"
  by (cases lk) (simp add: clock_wakeup_all_eq [OF refl])

lemma woken_wakeup_threads: "woken (wakeup_threads ts k) = woken k @ ts"
  unfolding wakeup_threads_def
  by (induction ts arbitrary: k) (simp_all add: thread_wakeup_def)

lemma state_thread_wakeup:
  "state (threads (thread_wakeup t k) u) = (if u = t then st_ready else state (threads k u))"
  by (simp add: thread_wakeup_def)

lemma state_wakeup_threads:
  "state (threads (wakeup_threads ts k) u)
     = (if u \<in> set ts then st_ready else state (threads k u))"
  unfolding wakeup_threads_def
  by (induction ts arbitrary: k) (auto simp: state_thread_wakeup)

lemma ts_asc_wakeup_one:
  "ts_asc (nodes (fst lk)) \<Longrightarrow> ts_asc (nodes (fst (Clock_threads_list_wakeup_one lk)))"
  by (auto simp: Clock_threads_list_wakeup_one_def nodes_remove sorted_wrt_remove1
      split: option.splits)

lemma ts_asc_check_wakeup:
  assumes "ts_asc (nodes (fst lk))"
  shows "ts_asc (nodes (fst (Clock_threads_list_check_wakeup now lk)))"
proof (cases lk)
  case (Pair l k)
  with assms have "nodes (fst (Clock_threads_list_check_wakeup now lk))
          = filter (\<lambda>m. now < timestamp (node m)) (nodes l)"
    by (simp add: check_wakeup_eq [OF refl] dropWhile_expired)
  then show ?thesis using assms Pair by (simp add: sorted_wrt_filter)
qed

lemma ts_asc_step: "ts_asc (nodes (fst lk)) \<Longrightarrow> ts_asc (nodes (fst (clock_step lk op)))"
  by (cases op)
    (simp_all add: Clock_threads_list_add_def sorted_insert_by_timestamp nodes_remove
      sorted_wrt_remove1 Double_list_clear_def ts_asc_wakeup_one ts_asc_check_wakeup
      nodes_clock_wakeup_all)

lemma ts_asc_foldl: "ts_asc (nodes (fst lk)) \<Longrightarrow> ts_asc (nodes (fst (foldl clock_step lk ops)))"
  by (induction ops arbitrary: lk) (simp_all add: ts_asc_step)

lemma ts_asc_run: "ts_asc (nodes (fst (clock_run ops k)))"
  unfolding clock_run_def by (rule ts_asc_foldl) (simp add: Double_list_ctor_def)

text \<open>
  C2. The list of timeouts is in ascending order of deadline after any sequence of
  calls, and \<open>add\<close> keeps it so, adding the node to the nodes of the list. On such a
  list \<open>check_wakeup now\<close> takes off the head exactly the
  nodes whose deadline is at most \<open>now\<close>, wakes their threads up in that order, which
  is ascending in the deadline, and marks each of them ready; every node that remains
  has a deadline after \<open>now\<close>.
\<close>

theorem clock_list_deadline_order:
  "ts_asc (nodes (fst (clock_run ops k')))
   \<and> (ts_asc (nodes l) \<longrightarrow>
        ts_asc (nodes (Clock_threads_list_add n l))
      \<and> set (nodes (Clock_threads_list_add n l)) = insert n (set (nodes l))
      \<and> nodes (fst (Clock_threads_list_check_wakeup now (l, k)))
          = filter (\<lambda>m. now < timestamp (node m)) (nodes l)
      \<and> nodes l = filter (\<lambda>m. timestamp (node m) \<le> now) (nodes l)
            @ nodes (fst (Clock_threads_list_check_wakeup now (l, k)))
      \<and> woken (snd (Clock_threads_list_check_wakeup now (l, k)))
          = woken k @ map (\<lambda>m. clock_thread (node m))
              (filter (\<lambda>m. timestamp (node m) \<le> now) (nodes l))
      \<and> ts_asc (filter (\<lambda>m. timestamp (node m) \<le> now) (nodes l))
      \<and> (\<forall>m \<in> set (nodes l). timestamp (node m) \<le> now \<longrightarrow>
            state (threads (snd (Clock_threads_list_check_wakeup now (l, k)))
              (clock_thread (node m))) = st_ready)
      \<and> (\<forall>m \<in> set (nodes (fst (Clock_threads_list_check_wakeup now (l, k)))).
            now < timestamp (node m)))"
proof (intro conjI impI)
  show "ts_asc (nodes (fst (clock_run ops k')))" by (rule ts_asc_run)
next
  assume s: "ts_asc (nodes l)"
  let ?P = "\<lambda>m. timestamp (node m) \<le> now"
  have cw: "Clock_threads_list_check_wakeup now (l, k) =
     (l\<lparr>nodes := filter (\<lambda>m. now < timestamp (node m)) (nodes l),
        count_m := count_m l - length (filter ?P (nodes l))\<rparr>,
      wakeup_threads (map (\<lambda>m. clock_thread (node m)) (filter ?P (nodes l))) k)"
    using s by (simp add: check_wakeup_eq [OF refl] dropWhile_expired takeWhile_expired)
  show "ts_asc (nodes (Clock_threads_list_add n l))"
    using s by (simp add: Clock_threads_list_add_def sorted_insert_by_timestamp)
  show "set (nodes (Clock_threads_list_add n l)) = insert n (set (nodes l))"
    by (simp add: Clock_threads_list_add_def set_insert_by_timestamp)
  show "nodes (fst (Clock_threads_list_check_wakeup now (l, k)))
          = filter (\<lambda>m. now < timestamp (node m)) (nodes l)"
    by (simp add: cw)
  have "nodes l = takeWhile ?P (nodes l) @ dropWhile ?P (nodes l)" by simp
  then show "nodes l = filter ?P (nodes l)
            @ nodes (fst (Clock_threads_list_check_wakeup now (l, k)))"
    using s by (simp add: cw dropWhile_expired [symmetric] takeWhile_expired [symmetric])
  show "woken (snd (Clock_threads_list_check_wakeup now (l, k)))
          = woken k @ map (\<lambda>m. clock_thread (node m)) (filter ?P (nodes l))"
    by (simp add: cw woken_wakeup_threads)
  show "ts_asc (filter ?P (nodes l))"
    using s by (simp add: sorted_wrt_filter)
  show "\<forall>m \<in> set (nodes l). timestamp (node m) \<le> now \<longrightarrow>
            state (threads (snd (Clock_threads_list_check_wakeup now (l, k)))
              (clock_thread (node m))) = st_ready"
    by (simp add: cw state_wakeup_threads)
  show "\<forall>m \<in> set (nodes (fst (Clock_threads_list_check_wakeup now (l, k)))).
            now < timestamp (node m)"
    by (simp add: cw)
qed

theorem clock_list_deadline_order_witness:
  "ts_asc [\<lparr>self = 2, node = \<lparr>timestamp = 3, clock_thread = 12\<rparr>\<rparr>,
           \<lparr>self = 3, node = \<lparr>timestamp = 5, clock_thread = 13\<rparr>\<rparr>,
           \<lparr>self = 1, node = \<lparr>timestamp = 7, clock_thread = 11\<rparr>\<rparr>]
   \<and> nodes (fst (Clock_threads_list_check_wakeup 5
        (\<lparr>nodes = [\<lparr>self = 2, node = \<lparr>timestamp = 3, clock_thread = 12\<rparr>\<rparr>,
                    \<lparr>self = 3, node = \<lparr>timestamp = 5, clock_thread = 13\<rparr>\<rparr>,
                    \<lparr>self = 1, node = \<lparr>timestamp = 7, clock_thread = 11\<rparr>\<rparr>],
           count_m = 3\<rparr>,
         \<lparr>threads = (\<lambda>a. \<lparr>dyn_prio = 1, state = st_suspended\<rparr>), woken = []\<rparr>)))
       = [\<lparr>self = 1, node = \<lparr>timestamp = 7, clock_thread = 11\<rparr>\<rparr>]
   \<and> woken (snd (Clock_threads_list_check_wakeup 5
        (\<lparr>nodes = [\<lparr>self = 2, node = \<lparr>timestamp = 3, clock_thread = 12\<rparr>\<rparr>,
                    \<lparr>self = 3, node = \<lparr>timestamp = 5, clock_thread = 13\<rparr>\<rparr>,
                    \<lparr>self = 1, node = \<lparr>timestamp = 7, clock_thread = 11\<rparr>\<rparr>],
           count_m = 3\<rparr>,
         \<lparr>threads = (\<lambda>a. \<lparr>dyn_prio = 1, state = st_suspended\<rparr>), woken = []\<rparr>)))
       = [12, 13]
   \<and> state (threads (snd (Clock_threads_list_check_wakeup 5
        (\<lparr>nodes = [\<lparr>self = 2, node = \<lparr>timestamp = 3, clock_thread = 12\<rparr>\<rparr>,
                    \<lparr>self = 3, node = \<lparr>timestamp = 5, clock_thread = 13\<rparr>\<rparr>,
                    \<lparr>self = 1, node = \<lparr>timestamp = 7, clock_thread = 11\<rparr>\<rparr>],
           count_m = 3\<rparr>,
         \<lparr>threads = (\<lambda>a. \<lparr>dyn_prio = 1, state = st_suspended\<rparr>), woken = []\<rparr>))) 13)
       = st_ready"
  using clock_list_deadline_order
    [of "[]" "\<lparr>threads = (\<lambda>a. \<lparr>dyn_prio = 1, state = st_suspended\<rparr>), woken = []\<rparr>"
        "\<lparr>nodes = [\<lparr>self = 2, node = \<lparr>timestamp = 3, clock_thread = 12\<rparr>\<rparr>,
                    \<lparr>self = 3, node = \<lparr>timestamp = 5, clock_thread = 13\<rparr>\<rparr>,
                    \<lparr>self = 1, node = \<lparr>timestamp = 7, clock_thread = 11\<rparr>\<rparr>],
           count_m = 3\<rparr>"
        "\<lparr>self = 4, node = \<lparr>timestamp = 4, clock_thread = 14\<rparr>\<rparr>" 5
        "\<lparr>threads = (\<lambda>a. \<lparr>dyn_prio = 1, state = st_suspended\<rparr>), woken = []\<rparr>"]
  by simp



section \<open>Properties of the list guard\<close>

lemma count_list_insert_by_timestamp:
  "count_list (insert_by_timestamp m xs) n = count_list xs n + (if m = n then 1 else 0)"
  by (induction xs) auto

lemma count_list_remove1_le: "count_list (remove1 m xs) n \<le> count_list xs n"
  by (induction xs) auto

lemma count_list_remove1_self: "count_list (remove1 n xs) n = count_list xs n - 1"
  by (induction xs) auto

lemma count_list_dropWhile_le: "count_list (dropWhile P xs) n \<le> count_list xs n"
  by (induction xs) auto

lemma count_list_0_iff: "count_list xs n = 0 \<longleftrightarrow> n \<notin> set xs"
  by (induction xs) auto

lemma count_clock_wakeup_one:
  "count_list (nodes (fst (Clock_threads_list_wakeup_one lk))) n \<le> count_list (nodes (fst lk)) n"
  by (simp add: Clock_threads_list_wakeup_one_def nodes_remove count_list_remove1_le
      split: option.splits)

lemma count_clock_check_wakeup:
  "count_list (nodes (fst (Clock_threads_list_check_wakeup now lk))) n
     \<le> count_list (nodes (fst lk)) n"
  by (cases lk) (simp add: check_wakeup_eq [OF refl] count_list_dropWhile_le)

lemma count_clock_step:
  "op \<noteq> C_add n \<Longrightarrow>
   count_list (nodes (fst (clock_step lk op))) n \<le> count_list (nodes (fst lk)) n"
  by (cases op)
    (auto simp: Clock_threads_list_add_def count_list_insert_by_timestamp nodes_remove
      count_list_remove1_le Double_list_clear_def count_clock_wakeup_one
      count_clock_check_wakeup nodes_clock_wakeup_all)

lemma count_clock_foldl:
  "C_add n \<notin> set ops \<Longrightarrow>
   count_list (nodes (fst (foldl clock_step lk ops))) n \<le> count_list (nodes (fst lk)) n"
proof (induction ops arbitrary: lk)
  case Nil
  then show ?case by simp
next
  case (Cons op ops)
  have "count_list (nodes (fst (foldl clock_step (clock_step lk op) ops))) n
          \<le> count_list (nodes (fst (clock_step lk op))) n"
    using Cons.prems by (intro Cons.IH) simp
  also have "\<dots> \<le> count_list (nodes (fst lk)) n"
    using Cons.prems by (intro count_clock_step) auto
  finally show ?case by simp
qed

lemma guarded_ctor:
  "guarded (Clock_threads_list_guard_ctor n s)
     = (Clock_threads_list_add n (fst (guarded s)), snd (guarded s))"
  by (simp add: Clock_threads_list_guard_ctor_def ListGuard_ctor_def Let_def
      critical_section_enter_def critical_section_exit_def)

lemma guarded_dtor:
  "guarded (Clock_threads_list_guard_dtor n s)
     = (Double_list_remove n (fst (guarded s)), snd (guarded s))"
  by (simp add: Clock_threads_list_guard_dtor_def ListGuard_dtor_def Let_def
      critical_section_enter_def critical_section_exit_def)

lemma not_linked_after_wait:
  assumes "\<not> linked n s" and "C_add n \<notin> set during"
  shows "\<not> linked n (guarded_wait n during s)"
proof -
  let ?s1 = "Clock_threads_list_guard_ctor n s"
  let ?s2 = "while_suspended during ?s1"
  have "count_list (nodes (fst (guarded s))) n = 0"
    using assms(1) by (simp add: linked_def count_list_0_iff)
  then have "count_list (nodes (fst (guarded ?s1))) n = 1"
    by (simp add: guarded_ctor Clock_threads_list_add_def count_list_insert_by_timestamp)
  moreover have "count_list (nodes (fst (guarded ?s2))) n
      \<le> count_list (nodes (fst (guarded ?s1))) n"
    unfolding while_suspended_def using assms(2) by (simp add: count_clock_foldl)
  ultimately have "count_list (nodes (fst (guarded ?s2))) n \<le> 1" by simp
  then have "count_list (remove1 n (nodes (fst (guarded ?s2)))) n = 0"
    by (simp add: count_list_remove1_self)
  then have "n \<notin> set (remove1 n (nodes (fst (guarded ?s2))))"
    unfolding count_list_0_iff .
  then show ?thesis
    by (simp add: linked_def guarded_wait_def guarded_dtor nodes_remove)
qed

lemma in_set_dropWhile: "x \<in> set xs \<Longrightarrow> \<not> P x \<Longrightarrow> x \<in> set (dropWhile P xs)"
  by (induction xs) auto

lemma stays_step:
  assumes "n \<in> set (nodes (fst lk))" and "\<not> takes_off n lk op"
  shows "n \<in> set (nodes (fst (clock_step lk op)))"
proof (cases op)
  case (C_add m)
  with assms show ?thesis by (simp add: Clock_threads_list_add_def set_insert_by_timestamp)
next
  case (C_remove m)
  with assms show ?thesis by (simp add: nodes_remove)
next
  case C_clear
  with assms show ?thesis by simp
next
  case C_wakeup_one
  with assms show ?thesis
    by (cases "nodes (fst lk)")
      (auto simp: Clock_threads_list_wakeup_one_def head_m_def nodes_remove)
next
  case C_wakeup_all
  with assms show ?thesis by simp
next
  case (C_check_wakeup now)
  with assms show ?thesis
    by (cases lk) (simp add: check_wakeup_eq [OF refl] in_set_dropWhile)
qed

lemma stays_foldl:
  "n \<in> set (nodes (fst lk)) \<Longrightarrow> none_takes_off n lk ops \<Longrightarrow>
   n \<in> set (nodes (fst (foldl clock_step lk ops)))"
  by (induction ops arbitrary: lk) (simp_all add: stays_step)

lemma taken_off_step:
  assumes "ts_asc (nodes (fst lk))" and "count_list (nodes (fst lk)) n \<le> 1"
    and "takes_off n lk op"
  shows "n \<notin> set (nodes (fst (clock_step lk op)))"
proof (cases op)
  case (C_add m)
  with assms show ?thesis by simp
next
  case (C_remove m)
  with assms have "count_list (remove1 n (nodes (fst lk))) n = 0"
    by (simp add: count_list_remove1_self)
  then have "n \<notin> set (remove1 n (nodes (fst lk)))" unfolding count_list_0_iff .
  with C_remove assms show ?thesis by (simp add: nodes_remove)
next
  case C_clear
  then show ?thesis by (simp add: Double_list_clear_def)
next
  case C_wakeup_one
  with assms obtain rest where r: "nodes (fst lk) = n # rest"
    by (cases "nodes (fst lk)") (auto simp: head_m_def)
  with assms(2) have "count_list rest n = 0" by simp
  then have "n \<notin> set rest" unfolding count_list_0_iff .
  with C_wakeup_one r show ?thesis
    by (simp add: Clock_threads_list_wakeup_one_def head_m_def nodes_remove)
next
  case C_wakeup_all
  then show ?thesis by (simp add: nodes_clock_wakeup_all)
next
  case (C_check_wakeup now)
  with assms show ?thesis
    by (cases lk) (simp add: check_wakeup_eq [OF refl] dropWhile_expired)
qed

lemma linked_ctor: "linked n (Clock_threads_list_guard_ctor n s)"
  by (simp add: linked_def guarded_ctor Clock_threads_list_add_def set_insert_by_timestamp)

text \<open>
  C6, as stated, fails on the expiry of the timeout: \<open>check_wakeup\<close> pops the node
  while the guard is still alive, so the node is not on the list during the whole of
  the guard's lifetime. Here the node of deadline 5 is on the list once the guard is
  constructed and off the list after \<open>check_wakeup 10\<close>, before the guard is destroyed.
\<close>

theorem list_guard_scope_expiry:
  "linked \<lparr>self = 1, node = \<lparr>timestamp = 5, clock_thread = 11\<rparr>\<rparr>
     (Clock_threads_list_guard_ctor \<lparr>self = 1, node = \<lparr>timestamp = 5, clock_thread = 11\<rparr>\<rparr>
        \<lparr>guarded = (Double_list_ctor,
            \<lparr>threads = (\<lambda>a. \<lparr>dyn_prio = 1, state = st_suspended\<rparr>), woken = []\<rparr>),
          cs_nesting = 0, call_log = []\<rparr>)
   \<and> \<not> linked \<lparr>self = 1, node = \<lparr>timestamp = 5, clock_thread = 11\<rparr>\<rparr>
     (while_suspended [C_check_wakeup 10]
       (Clock_threads_list_guard_ctor \<lparr>self = 1, node = \<lparr>timestamp = 5, clock_thread = 11\<rparr>\<rparr>
          \<lparr>guarded = (Double_list_ctor,
              \<lparr>threads = (\<lambda>a. \<lparr>dyn_prio = 1, state = st_suspended\<rparr>), woken = []\<rparr>),
            cs_nesting = 0, call_log = []\<rparr>))"
  by (simp add: linked_def while_suspended_def guarded_ctor Clock_threads_list_add_def
      Double_list_ctor_def check_wakeup_eq [OF refl])

text \<open>
  C6, amended. Constructing a \<open>ListGuard\<close> adds the node to the list inside a
  critical section, and destroying it removes that node from the list inside a critical
  section; both leave the nesting of critical sections as it was. For a suspending call
  that wraps its timeout node in such a guard: the node is on the list once the guard
  is constructed; it is still there after the calls made on the list meanwhile when
  none of them takes it off; a call that takes it off leaves a list in ascending order
  that held it once without it; and, when the node was not linked before and no other
  call adds it again, it is not on the list after the guard is destroyed, whatever calls
  were made on the list meanwhile, that is for every reason of the wake-up.
\<close>

theorem list_guard_adds_and_removes:
  "guarded (ListGuard_ctor add n s) = add n (guarded s)
   \<and> call_log (ListGuard_ctor add n s) = call_log s @ [(Call_add n, True)]
   \<and> cs_nesting (ListGuard_ctor add n s) = cs_nesting s
   \<and> guarded (ListGuard_dtor remove n s) = remove n (guarded s)
   \<and> call_log (ListGuard_dtor remove n s) = call_log s @ [(Call_remove n, True)]
   \<and> cs_nesting (ListGuard_dtor remove n s) = cs_nesting s
   \<and> linked c (Clock_threads_list_guard_ctor c t)
   \<and> (none_takes_off c (guarded (Clock_threads_list_guard_ctor c t)) during \<longrightarrow>
        linked c (while_suspended during (Clock_threads_list_guard_ctor c t)))
   \<and> (ts_asc (nodes (fst lk)) \<and> count_list (nodes (fst lk)) c \<le> 1 \<and> takes_off c lk op \<longrightarrow>
        c \<notin> set (nodes (fst (clock_step lk op))))
   \<and> (\<not> linked c t \<and> C_add c \<notin> set during \<longrightarrow>
        \<not> linked c (guarded_wait c during t))"
proof (intro conjI impI)
  show "linked c (Clock_threads_list_guard_ctor c t)" by (rule linked_ctor)
next
  assume "none_takes_off c (guarded (Clock_threads_list_guard_ctor c t)) during"
  then show "linked c (while_suspended during (Clock_threads_list_guard_ctor c t))"
    using linked_ctor [of c t] by (simp add: linked_def while_suspended_def stays_foldl)
next
  assume "ts_asc (nodes (fst lk)) \<and> count_list (nodes (fst lk)) c \<le> 1 \<and> takes_off c lk op"
  then show "c \<notin> set (nodes (fst (clock_step lk op)))"
    by (simp add: taken_off_step)
next
  assume "\<not> linked c t \<and> C_add c \<notin> set during"
  then show "\<not> linked c (guarded_wait c during t)"
    by (simp add: not_linked_after_wait)
qed (simp_all add: ListGuard_ctor_def ListGuard_dtor_def Let_def critical_section_enter_def
    critical_section_exit_def)

theorem list_guard_adds_and_removes_witness:
  "none_takes_off \<lparr>self = 1, node = \<lparr>timestamp = 5, clock_thread = 11\<rparr>\<rparr>
     (guarded (Clock_threads_list_guard_ctor \<lparr>self = 1, node = \<lparr>timestamp = 5, clock_thread = 11\<rparr>\<rparr>
        \<lparr>guarded = (Double_list_ctor,
            \<lparr>threads = (\<lambda>a. \<lparr>dyn_prio = 1, state = st_suspended\<rparr>), woken = []\<rparr>),
          cs_nesting = 0, call_log = []\<rparr>))
     [C_add \<lparr>self = 2, node = \<lparr>timestamp = 3, clock_thread = 12\<rparr>\<rparr>, C_check_wakeup 3,
      C_remove \<lparr>self = 2, node = \<lparr>timestamp = 3, clock_thread = 12\<rparr>\<rparr>]
   \<and> linked \<lparr>self = 1, node = \<lparr>timestamp = 5, clock_thread = 11\<rparr>\<rparr>
     (while_suspended
       [C_add \<lparr>self = 2, node = \<lparr>timestamp = 3, clock_thread = 12\<rparr>\<rparr>, C_check_wakeup 3,
        C_remove \<lparr>self = 2, node = \<lparr>timestamp = 3, clock_thread = 12\<rparr>\<rparr>]
       (Clock_threads_list_guard_ctor \<lparr>self = 1, node = \<lparr>timestamp = 5, clock_thread = 11\<rparr>\<rparr>
          \<lparr>guarded = (Double_list_ctor,
              \<lparr>threads = (\<lambda>a. \<lparr>dyn_prio = 1, state = st_suspended\<rparr>), woken = []\<rparr>),
            cs_nesting = 0, call_log = []\<rparr>))
   \<and> ts_asc [\<lparr>self = 2, node = \<lparr>timestamp = 3, clock_thread = 12\<rparr>\<rparr>,
             \<lparr>self = 1, node = \<lparr>timestamp = 5, clock_thread = 11\<rparr>\<rparr>]
   \<and> count_list [\<lparr>self = 2, node = \<lparr>timestamp = 3, clock_thread = 12\<rparr>\<rparr>,
             \<lparr>self = 1, node = \<lparr>timestamp = 5, clock_thread = 11\<rparr>\<rparr>]
          \<lparr>self = 1, node = \<lparr>timestamp = 5, clock_thread = 11\<rparr>\<rparr> \<le> 1
   \<and> takes_off \<lparr>self = 1, node = \<lparr>timestamp = 5, clock_thread = 11\<rparr>\<rparr>
        (\<lparr>nodes = [\<lparr>self = 2, node = \<lparr>timestamp = 3, clock_thread = 12\<rparr>\<rparr>,
                    \<lparr>self = 1, node = \<lparr>timestamp = 5, clock_thread = 11\<rparr>\<rparr>],
           count_m = 2\<rparr>,
         \<lparr>threads = (\<lambda>a. \<lparr>dyn_prio = 1, state = st_suspended\<rparr>), woken = []\<rparr>)
        (C_check_wakeup 10)
   \<and> \<lparr>self = 1, node = \<lparr>timestamp = 5, clock_thread = 11\<rparr>\<rparr>
       \<notin> set (nodes (fst (clock_step
        (\<lparr>nodes = [\<lparr>self = 2, node = \<lparr>timestamp = 3, clock_thread = 12\<rparr>\<rparr>,
                    \<lparr>self = 1, node = \<lparr>timestamp = 5, clock_thread = 11\<rparr>\<rparr>],
           count_m = 2\<rparr>,
         \<lparr>threads = (\<lambda>a. \<lparr>dyn_prio = 1, state = st_suspended\<rparr>), woken = []\<rparr>)
        (C_check_wakeup 10))))
   \<and> \<not> linked \<lparr>self = 1, node = \<lparr>timestamp = 5, clock_thread = 11\<rparr>\<rparr>
        \<lparr>guarded = (Double_list_ctor,
            \<lparr>threads = (\<lambda>a. \<lparr>dyn_prio = 1, state = st_suspended\<rparr>), woken = []\<rparr>),
          cs_nesting = 0, call_log = []\<rparr>
   \<and> C_add \<lparr>self = 1, node = \<lparr>timestamp = 5, clock_thread = 11\<rparr>\<rparr>
         \<notin> set [C_add \<lparr>self = 2, node = \<lparr>timestamp = 3, clock_thread = 12\<rparr>\<rparr>, C_check_wakeup 10]
   \<and> \<not> linked \<lparr>self = 1, node = \<lparr>timestamp = 5, clock_thread = 11\<rparr>\<rparr>
     (guarded_wait \<lparr>self = 1, node = \<lparr>timestamp = 5, clock_thread = 11\<rparr>\<rparr>
        [C_add \<lparr>self = 2, node = \<lparr>timestamp = 3, clock_thread = 12\<rparr>\<rparr>, C_check_wakeup 10]
        \<lparr>guarded = (Double_list_ctor,
            \<lparr>threads = (\<lambda>a. \<lparr>dyn_prio = 1, state = st_suspended\<rparr>), woken = []\<rparr>),
          cs_nesting = 0, call_log = []\<rparr>)"
proof -
  let ?n = "\<lparr>self = 1, node = \<lparr>timestamp = 5, clock_thread = 11\<rparr>\<rparr> :: Double_list_node_clock"
  let ?m = "\<lparr>self = 2, node = \<lparr>timestamp = 3, clock_thread = 12\<rparr>\<rparr> :: Double_list_node_clock"
  let ?k = "\<lparr>threads = (\<lambda>a. \<lparr>dyn_prio = 1, state = st_suspended\<rparr>), woken = []\<rparr> :: kernel"
  let ?s = "\<lparr>guarded = (Double_list_ctor, ?k), cs_nesting = 0, call_log = []\<rparr>
    :: clock_guard_state"
  let ?lk = "(\<lparr>nodes = [?m, ?n], count_m = 2\<rparr>, ?k)"
  have a: "\<not> linked ?n ?s" by (simp add: linked_def Double_list_ctor_def)
  have b: "C_add ?n \<notin> set [C_add ?m, C_check_wakeup 10]" by simp
  have c: "none_takes_off ?n (guarded (Clock_threads_list_guard_ctor ?n ?s))
      [C_add ?m, C_check_wakeup 3, C_remove ?m]"
    by simp
  have d: "ts_asc [?m, ?n]" and e: "count_list [?m, ?n] ?n \<le> 1"
    and f: "takes_off ?n ?lk (C_check_wakeup 10)"
    by simp_all
  have def': "ts_asc (nodes (fst ?lk)) \<and> count_list (nodes (fst ?lk)) ?n \<le> 1
      \<and> takes_off ?n ?lk (C_check_wakeup 10)"
    using d e f by simp
  note stays = list_guard_adds_and_removes
    [where c = ?n and t = ?s and during = "[C_add ?m, C_check_wakeup 3, C_remove ?m]",
      THEN conjunct2, THEN conjunct2, THEN conjunct2, THEN conjunct2, THEN conjunct2,
      THEN conjunct2, THEN conjunct2, THEN conjunct1, rule_format, OF c]
  note off = list_guard_adds_and_removes
    [where c = ?n and lk = ?lk and op = "C_check_wakeup 10",
      THEN conjunct2, THEN conjunct2, THEN conjunct2, THEN conjunct2, THEN conjunct2,
      THEN conjunct2, THEN conjunct2, THEN conjunct2, THEN conjunct1, rule_format, OF def']
  note gone = list_guard_adds_and_removes
    [where c = ?n and t = ?s and during = "[C_add ?m, C_check_wakeup 10]",
      THEN conjunct2, THEN conjunct2, THEN conjunct2, THEN conjunct2, THEN conjunct2,
      THEN conjunct2, THEN conjunct2, THEN conjunct2, THEN conjunct2, rule_format,
      OF conjI [OF a b]]
  from a b c d e f stays off gone show ?thesis by (intro conjI)
qed

section \<open>Properties of the mutex\<close>



section \<open>Properties of the links in memory and of the node counter\<close>

lemma successively_frame:
  "successively (links_ok h) xs \<Longrightarrow>
   \<forall>x \<in> set (butlast xs). l_next (h' x) = l_next (h x) \<Longrightarrow>
   \<forall>y \<in> set (tl xs). l_prev (h' y) = l_prev (h y) \<Longrightarrow>
   successively (links_ok h') xs"
proof (induction xs)
  case Nil
  then show ?case by simp
next
  case (Cons x xs)
  show ?case
  proof (cases xs)
    case Nil
    then show ?thesis by simp
  next
    case (Cons y ys)
    from Cons.prems Cons have "links_ok h' x y" by (simp add: links_ok_def)
    moreover have "successively (links_ok h') xs"
      using Cons.prems Cons by (intro Cons.IH) auto
    ultimately show ?thesis using Cons by simp
  qed
qed

lemma ring_rotate1: "ring h (x # xs) \<Longrightarrow> ring h (xs @ [x])"
proof (cases xs)
  case Nil
  assume "ring h (x # xs)"
  with Nil show ?thesis by simp
next
  case (Cons y ys)
  assume r: "ring h (x # xs)"
  then have d: "distinct (xs @ [x])" by (auto simp: ring_def)
  from r have "successively (links_ok h) (x # y # ys @ [x])"
    by (simp add: ring_def Cons)
  then have "links_ok h x y" and "successively (links_ok h) ((y # ys) @ [x])" by simp_all
  then have "successively (links_ok h) (((y # ys) @ [x]) @ [y])"
    by (subst successively_append_iff) simp
  with d show ?thesis by (simp add: ring_def Cons)
qed

lemma ring_rotate: "ring h (us @ vs) \<Longrightarrow> ring h (vs @ us)"
proof (induction us arbitrary: vs)
  case Nil
  then show ?case by simp
next
  case (Cons u us)
  from Cons.prems have "ring h ((us @ vs) @ [u])"
    using ring_rotate1 [of h u "us @ vs"] by simp
  then have "ring h (us @ (vs @ [u]))" by simp
  then have "ring h ((vs @ [u]) @ us)" by (rule Cons.IH)
  then show ?case by simp
qed

lemma ring_to_last:
  assumes "ring h xs" and "a \<in> set xs"
  obtains ws where "ring h (ws @ [a])" and "set (ws @ [a]) = set xs"
    and "length (ws @ [a]) = length xs"
proof -
  from assms(2) obtain ys zs where xs: "xs = ys @ a # zs" by (auto dest: split_list)
  with assms(1) have "ring h ((ys @ [a]) @ zs)" by simp
  then have "ring h (zs @ (ys @ [a]))" by (rule ring_rotate)
  then have "ring h ((zs @ ys) @ [a])" by simp
  moreover have "set ((zs @ ys) @ [a]) = set xs" using xs by auto
  moreover have "length ((zs @ ys) @ [a]) = length xs" using xs by simp
  ultimately show ?thesis by (rule that)
qed

lemma ring_to_first:
  assumes "ring h xs" and "a \<in> set xs"
  obtains ws where "ring h (a # ws)" and "set (a # ws) = set xs"
    and "length (a # ws) = length xs"
proof -
  from assms(2) obtain ys zs where xs: "xs = ys @ a # zs" by (auto dest: split_list)
  with assms(1) have "ring h (ys @ (a # zs))" by simp
  then have "ring h ((a # zs) @ ys)" by (rule ring_rotate)
  then have "ring h (a # (zs @ ys))" by simp
  moreover have "set (a # (zs @ ys)) = set xs" using xs by auto
  moreover have "length (a # (zs @ ys)) = length xs" using xs by simp
  ultimately show ?thesis by (rule that)
qed

lemma ring_last_next:
  assumes "ring h (ws @ [a])"
  shows "links_ok h a (hd (ws @ [a]))"
proof -
  from assms have "successively (links_ok h) ((ws @ [a]) @ [hd (ws @ [a])])"
    by (simp add: ring_def)
  then have "successively (links_ok h) (ws @ [a, hd (ws @ [a])])" by simp
  then show ?thesis by (simp add: successively_append_iff)
qed

lemma ring_inner:
  assumes "ring h (ws @ [a])"
  shows "successively (links_ok h) (ws @ [a])"
proof -
  from assms have "successively (links_ok h) ((ws @ [a]) @ [hd (ws @ [a])])"
    by (simp add: ring_def)
  then show ?thesis by (subst (asm) successively_append_iff) simp
qed

lemma ring_next:
  assumes "ring h xs" and "a \<in> set xs"
  obtains b where "b \<in> set xs" and "l_next (h a) = Some b" and "l_prev (h b) = Some a"
proof -
  from assms obtain ws where r: "ring h (ws @ [a])" and s: "set (ws @ [a]) = set xs"
    by (rule ring_to_last)
  have "links_ok h a (hd (ws @ [a]))" using r by (rule ring_last_next)
  moreover have "hd (ws @ [a]) \<in> set xs" using s hd_in_set [of "ws @ [a]"] by simp
  ultimately show ?thesis using that by (simp add: links_ok_def)
qed

lemma ring_prev:
  assumes "ring h xs" and "b \<in> set xs"
  obtains a where "a \<in> set xs" and "l_prev (h b) = Some a" and "l_next (h a) = Some b"
proof -
  from assms obtain ws where r: "ring h (b # ws)" and s: "set (b # ws) = set xs"
    by (rule ring_to_first)
  have e: "butlast (b # ws) @ [last (b # ws)] = b # ws"
    by (rule append_butlast_last_id) simp
  from r have "ring h ((butlast (b # ws)) @ [last (b # ws)])" by (simp only: e)
  then have "links_ok h (last (b # ws)) (hd (butlast (b # ws) @ [last (b # ws)]))"
    by (rule ring_last_next)
  then have "links_ok h (last (b # ws)) b" by (simp only: e list.sel)
  moreover have "last (b # ws) \<in> set xs" using s last_in_set [of "b # ws"] by simp
  ultimately show ?thesis using that by (simp add: links_ok_def)
qed

lemma follow_chain:
  "successively (links_ok h) (xs @ [z]) \<Longrightarrow> xs \<noteq> [] \<Longrightarrow>
   follow h (hd xs) (length xs) = xs"
proof (induction xs)
  case Nil
  then show ?case by simp
next
  case (Cons x xs)
  show ?case
  proof (cases xs)
    case Nil
    then show ?thesis by (simp split: option.splits)
  next
    case (Cons y ys)
    with Cons.prems have "links_ok h x y" and "successively (links_ok h) (xs @ [z])"
      by simp_all
    with Cons.IH Cons show ?thesis by (simp add: links_ok_def)
  qed
qed

lemma follow_ring: "ring h xs \<Longrightarrow> xs \<noteq> [] \<Longrightarrow> follow h (hd xs) (length xs) = xs"
  by (auto simp: ring_def intro: follow_chain)


lemma ring_not_detached:
  assumes "ring h xs" and "l_next (h n) = None"
  shows "n \<notin> set xs"
proof
  assume "n \<in> set xs"
  with assms(1) obtain b where "l_next (h n) = Some b" by (rule ring_next)
  with assms(2) show False by simp
qed

lemma ring_insert_last:
  assumes r: "ring h (ws @ [a])" and n: "n \<notin> set (ws @ [a])"
    and b: "l_next (h a) = Some b"
  shows "ring (set_next a (Some n) (set_prev b (Some n)
           (set_next n (Some b) (set_prev n (Some a) h)))) (ws @ [a, n])"
    (is "ring ?h' _")
proof -
  from r have ab: "links_ok h a (hd (ws @ [a]))" by (rule ring_last_next)
  with b have hd: "hd (ws @ [a]) = b" by (simp add: links_ok_def)
  from r have d: "distinct (ws @ [a])" by (simp add: ring_def)
  from hd have b_in: "b \<in> set (ws @ [a])" using hd_in_set [of "ws @ [a]"] by simp
  with n have nb: "n \<noteq> b" by auto
  from n have na: "n \<noteq> a" by auto
  have inner: "successively (links_ok ?h') (ws @ [a])"
  proof (rule successively_frame [OF ring_inner [OF r]])
    show "\<forall>x \<in> set (butlast (ws @ [a])). l_next (?h' x) = l_next (h x)"
      using d n by (auto simp: set_next_def set_prev_def)
    have "\<forall>y \<in> set (tl (ws @ [a])). y \<noteq> b"
      using d hd by (cases "ws @ [a]") auto
    moreover have "\<forall>y \<in> set (tl (ws @ [a])). y \<noteq> n"
      using n by (auto dest: list.set_sel(2) [rotated])
    ultimately show "\<forall>y \<in> set (tl (ws @ [a])). l_prev (?h' y) = l_prev (h y)"
      by (auto simp: set_next_def set_prev_def)
  qed
  have an: "links_ok ?h' a n"
    using na nb by (simp add: links_ok_def set_next_def set_prev_def)
  have nb': "links_ok ?h' n b"
    using na nb by (simp add: links_ok_def set_next_def set_prev_def)
  have "successively (links_ok ?h') ((ws @ [a]) @ [n, b])"
    using inner an nb' by (subst successively_append_iff) simp
  moreover have "hd (ws @ [a, n]) = b" using hd by (cases ws) simp_all
  moreover have "distinct (ws @ [a, n])" using d n by auto
  ultimately show ?thesis by (simp add: ring_def)
qed

lemma ring_remove_last:
  assumes r: "ring h (ws @ [n])" and ws: "ws \<noteq> []"
    and a: "l_prev (h n) = Some a" and b: "l_next (h n) = Some b"
  shows "ring ((set_prev b (Some a) (set_next a (Some b) h))(n := Double_list_links_ctor)) ws"
    (is "ring ?h' _")
    and "b = hd ws" and "b \<noteq> n"
proof -
  from ws obtain us l where us: "ws = us @ [l]" by (cases ws rule: rev_cases) auto
  from r have "links_ok h n (hd (ws @ [n]))" by (rule ring_last_next)
  with b ws show hd: "b = hd ws" by (simp add: links_ok_def)
  from r have d: "distinct (us @ [l, n])" by (simp add: ring_def us)
  from hd ws have b_in: "b \<in> set ws" by simp
  with d us show bn: "b \<noteq> n" by auto
  have chain: "successively (links_ok h) (us @ [l, n])"
    using ring_inner [OF r] by (simp add: us)
  then have "links_ok h l n" by (simp add: successively_append_iff)
  with a have last: "a = l" by (simp add: links_ok_def)
  with d have an: "a \<noteq> n" by auto
  from chain have "successively (links_ok h) ((us @ [l]) @ [n])" by simp
  then have ws_chain: "successively (links_ok h) (us @ [l])"
    by (subst (asm) successively_append_iff) simp
  have inner: "successively (links_ok ?h') (us @ [l])"
  proof (rule successively_frame [OF ws_chain])
    show "\<forall>x \<in> set (butlast (us @ [l])). l_next (?h' x) = l_next (h x)"
      using d last by (auto simp: set_next_def set_prev_def)
    have "\<forall>y \<in> set (tl (us @ [l])). y \<noteq> b"
      using d hd us by (cases us) auto
    moreover have "\<forall>y \<in> set (tl (us @ [l])). y \<noteq> n"
      using d by (cases us) auto
    ultimately show "\<forall>y \<in> set (tl (us @ [l])). l_prev (?h' y) = l_prev (h y)"
      by (auto simp: set_next_def set_prev_def)
  qed
  have "links_ok ?h' l b"
    using an bn last by (simp add: links_ok_def set_next_def set_prev_def)
  then have "successively (links_ok ?h') ((us @ [l]) @ [b])"
    using inner by (subst successively_append_iff) simp
  then show "ring ?h' ws" using d hd by (simp add: ring_def us)
qed


lemma ring_Nil: "ring h []"
  by (simp add: ring_def)

lemma mem_abs_nodes:
  assumes "mem_abs lh xs"
  shows "mem_inv lh" and "set (mem_nodes lh) = set xs"
proof -
  have "mem_inv lh \<and> set (mem_nodes lh) = set xs"
  proof (cases "head_p (fst lh)")
    case None
    with assms show ?thesis by (simp add: mem_abs_def mem_inv_def mem_nodes_def ring_Nil)
  next
    case (Some p)
    with assms have r: "ring (snd lh) xs" and p: "p \<in> set xs"
      and c: "count_p (fst lh) = length xs"
      by (simp_all add: mem_abs_def)
    from r p obtain ws where rw: "ring (snd lh) (p # ws)" and sw: "set (p # ws) = set xs"
      and lw: "length (p # ws) = length xs"
      by (rule ring_to_first)
    have "follow (snd lh) (hd (p # ws)) (length (p # ws)) = p # ws"
      using rw by (rule follow_ring) simp
    then have "follow (snd lh) p (length xs) = p # ws"
      by (simp only: lw list.sel)
    then have "mem_nodes lh = p # ws"
      using Some c by (simp add: mem_nodes_def)
    with rw sw lw c Some show ?thesis by (auto simp: mem_inv_def)
  qed
  then show "mem_inv lh" and "set (mem_nodes lh) = set xs" by simp_all
qed

lemma mem_inv_abs:
  assumes "mem_inv lh"
  shows "mem_abs lh (mem_nodes lh)"
proof (cases "head_p (fst lh)")
  case None
  with assms show ?thesis by (simp add: mem_abs_def mem_inv_def mem_nodes_def)
next
  case (Some p)
  with assms obtain k where "count_p (fst lh) = Suc k"
    by (cases "count_p (fst lh)") (auto simp: mem_inv_def)
  with Some have "p \<in> set (mem_nodes lh)" by (simp add: mem_nodes_def)
  with assms Some show ?thesis by (simp add: mem_abs_def mem_inv_def)
qed

lemma mem_abs_ctor: "mem_abs (Double_list_mem_ctor, h) []"
  by (simp add: mem_abs_def Double_list_mem_ctor_def ring_def)

lemma mem_abs_clear: "mem_abs (mem_clear lh) []"
  by (simp add: mem_abs_def mem_clear_def ring_def)

lemma mem_abs_add:
  assumes abs: "mem_abs lh xs"
    and det: "l_next (snd lh n) = None"
    and pos: "head_p (fst lh) = None \<or> after \<in> set xs"
  shows "\<exists>ys. mem_abs (mem_add n after as_head lh) ys"
proof (cases "head_p (fst lh)")
  case None
  have "links_ok (set_next n (Some n) (set_prev n (Some n) (snd lh))) n n"
    by (simp add: links_ok_def set_next_def set_prev_def)
  then have "mem_abs (mem_add n after as_head lh) [n]"
    using None by (simp add: mem_abs_def mem_add_def ring_def)
  then show ?thesis ..
next
  case (Some p)
  with abs pos have r: "ring (snd lh) xs" and p: "p \<in> set xs" and a: "after \<in> set xs"
    and c: "count_p (fst lh) = length xs"
    by (simp_all add: mem_abs_def)
  from r det have n: "n \<notin> set xs" by (rule ring_not_detached)
  from r a obtain ws where rw: "ring (snd lh) (ws @ [after])"
    and sw: "set (ws @ [after]) = set xs" and lw: "length (ws @ [after]) = length xs"
    by (rule ring_to_last)
  from r a obtain b where b: "l_next (snd lh after) = Some b" by (rule ring_next)
  from n sw have n': "n \<notin> set (ws @ [after])" by simp
  have "ring (set_next after (Some n) (set_prev b (Some n)
           (set_next n (Some b) (set_prev n (Some after) (snd lh))))) (ws @ [after, n])"
    using rw n' b by (rule ring_insert_last)
  moreover have "p \<in> set (ws @ [after, n])" using p sw by auto
  moreover have "count_p (fst lh) + 1 = length (ws @ [after, n])" using c lw by simp
  ultimately have "mem_abs (mem_add n after as_head lh) (ws @ [after, n])"
    using Some b by (simp add: mem_abs_def mem_add_def)
  then show ?thesis ..
qed

lemma mem_abs_remove:
  assumes abs: "mem_abs lh xs"
    and pre: "n \<in> set xs \<or> (l_prev (snd lh n) = None \<and> l_next (snd lh n) = None)"
  shows "\<exists>ys. mem_abs (mem_remove n lh) ys"
proof (cases "n \<in> set xs")
  case False
  with pre have "mem_remove n lh = lh" by (simp add: mem_remove_def)
  with abs show ?thesis by auto
next
  case True
  from abs have r: "ring (snd lh) xs" and c: "count_p (fst lh) = length xs"
    by (simp_all add: mem_abs_def)
  from abs True obtain p where hp: "head_p (fst lh) = Some p" and p: "p \<in> set xs"
    by (cases "head_p (fst lh)") (auto simp: mem_abs_def)
  from r True obtain ws where rw: "ring (snd lh) (ws @ [n])"
    and sw: "set (ws @ [n]) = set xs" and lw: "length (ws @ [n]) = length xs"
    by (rule ring_to_last)
  from r True obtain b where b: "l_next (snd lh n) = Some b" by (rule ring_next)
  from r True obtain a where a: "l_prev (snd lh n) = Some a" by (rule ring_prev)
  show ?thesis
  proof (cases "ws = []")
    case True
    with rw have "links_ok (snd lh) n n" using ring_last_next [of "snd lh" "[]" n] by simp
    with b have bn: "b = n" by (simp add: links_ok_def)
    from True sw p have "p = n" by auto
    with hp a b bn c lw True have "mem_abs (mem_remove n lh) []"
      by (simp add: mem_abs_def mem_remove_def ring_def)
    then show ?thesis ..
  next
    case False
    note rem = ring_remove_last [OF rw False a b]
    from rw have "n \<notin> set ws" by (simp add: ring_def)
    with p sw have p': "p \<noteq> n \<Longrightarrow> p \<in> set ws" by auto
    from rem(2) False have "b \<in> set ws" by simp
    with rem hp a b c lw p' have "mem_abs (mem_remove n lh) ws"
      by (auto simp: mem_abs_def mem_remove_def)
    then show ?thesis ..
  qed
qed

lemma mem_inv_step:
  assumes "mem_inv lh" and "mem_call_ok lh op"
  shows "mem_inv (mem_step lh op)"
proof -
  from assms(1) have abs: "mem_abs lh (mem_nodes lh)" by (rule mem_inv_abs)
  have "\<exists>ys. mem_abs (mem_step lh op) ys"
  proof (cases op)
    case (M_add n after as_head)
    with assms(2) show ?thesis by (auto intro: mem_abs_add [OF abs])
  next
    case (M_remove n)
    with assms(2) show ?thesis by (auto intro: mem_abs_remove [OF abs])
  next
    case M_clear
    have "mem_abs (mem_clear lh) []" by (rule mem_abs_clear)
    with M_clear show ?thesis by auto
  qed
  then show ?thesis by (auto intro: mem_abs_nodes(1))
qed

lemma mem_inv_foldl:
  "mem_inv lh \<Longrightarrow> mem_calls_ok lh ops \<Longrightarrow> mem_inv (foldl mem_step lh ops)"
  by (induction ops arbitrary: lh) (simp_all add: mem_inv_step)

lemma mem_inv_run:
  "mem_calls_ok (Double_list_mem_ctor, h) ops \<Longrightarrow> mem_inv (mem_run h ops)"
  unfolding mem_run_def
  by (rule mem_inv_foldl) (auto intro: mem_abs_nodes(1) mem_abs_ctor)









text \<open>
  C4, as stated, fails: a list holds a pointer to its first node and no sentinel, the
  empty list is a null \<open>head_\<close> with no node at all, and a links object is constructed
  with null \<open>prev\<close> and \<open>next\<close>. A list is empty again, with a null head, once its only
  node is removed. Nor is every state that calls can reach a ring: after node 2 is
  added a second time, while it is linked, the \<open>next\<close> of both nodes 2 and 3 is node 2.
\<close>

theorem double_list_empty_null_head:
  "head_p (fst (mem_run (\<lambda>a. Double_list_links_ctor) [])) = None
   \<and> mem_nodes (mem_run (\<lambda>a. Double_list_links_ctor) []) = []
   \<and> l_prev Double_list_links_ctor = None
   \<and> l_next Double_list_links_ctor = None
   \<and> head_p (fst (mem_run (\<lambda>a. Double_list_links_ctor) [M_add 1 1 False, M_remove 1])) = None
   \<and> l_next (snd (mem_run (\<lambda>a. Double_list_links_ctor)
        [M_add 2 0 False, M_add 3 2 False, M_add 2 3 False]) 2) = Some 2
   \<and> l_next (snd (mem_run (\<lambda>a. Double_list_links_ctor)
        [M_add 2 0 False, M_add 3 2 False, M_add 2 3 False]) 3) = Some 2"
  by (simp add: mem_run_def Double_list_mem_ctor_def mem_nodes_def Double_list_links_ctor_def
      mem_add_def mem_remove_def set_next_def set_prev_def)

text \<open>
  C4, amended. A list is circular and doubly linked without a sentinel. For a list
  whose callers respect it (a node to add has null pointers and is linked behind a node
  of the list, a node to remove is a node of the list or has null pointers), in every
  state reached from the constructed list: the head is null exactly when the list has
  no node, and then the counter is zero; otherwise the nodes met from the head following
  \<open>next\<close> are distinct and as many as the counter says, each has non-null \<open>next\<close> and
  \<open>prev\<close> pointers to nodes of the list, \<open>prev\<close> undoes \<open>next\<close>, and the \<open>next\<close> of the
  last node is the head: the nodes form a single cycle through the head node.
\<close>

theorem double_list_ring:
  "mem_calls_ok (Double_list_mem_ctor, h) ops \<longrightarrow>
     mem_inv (mem_run h ops)
     \<and> (head_p (fst (mem_run h ops)) = None \<longleftrightarrow> mem_nodes (mem_run h ops) = [])
     \<and> (\<forall>p. head_p (fst (mem_run h ops)) = Some p \<longrightarrow>
           hd (mem_nodes (mem_run h ops)) = p
           \<and> l_next (snd (mem_run h ops) (last (mem_nodes (mem_run h ops)))) = Some p)
     \<and> (\<forall>x \<in> set (mem_nodes (mem_run h ops)).
           \<exists>y \<in> set (mem_nodes (mem_run h ops)). \<exists>z \<in> set (mem_nodes (mem_run h ops)).
             l_next (snd (mem_run h ops) x) = Some y \<and> l_prev (snd (mem_run h ops) y) = Some x
             \<and> l_prev (snd (mem_run h ops) x) = Some z \<and> l_next (snd (mem_run h ops) z) = Some x)"
proof
  assume ok: "mem_calls_ok (Double_list_mem_ctor, h) ops"
  define lh where "lh = mem_run h ops"
  have inv: "mem_inv lh" unfolding lh_def using ok by (rule mem_inv_run)
  then have r: "ring (snd lh) (mem_nodes lh)"
    and len: "length (mem_nodes lh) = count_p (fst lh)"
    and hc: "head_p (fst lh) = None \<longleftrightarrow> count_p (fst lh) = 0"
    by (simp_all add: mem_inv_def)
  have empty: "head_p (fst lh) = None \<longleftrightarrow> mem_nodes lh = []"
    using hc len by auto
  have head: "\<forall>p. head_p (fst lh) = Some p \<longrightarrow>
           hd (mem_nodes lh) = p \<and> l_next (snd lh (last (mem_nodes lh))) = Some p"
  proof (intro allI impI)
    fix p assume p: "head_p (fst lh) = Some p"
    with hc obtain k where k: "count_p (fst lh) = Suc k"
      by (cases "count_p (fst lh)") auto
    with p have hd: "hd (mem_nodes lh) = p" by (simp add: mem_nodes_def)
    from p empty have ne: "mem_nodes lh \<noteq> []" by simp
    then have "ring (snd lh) (butlast (mem_nodes lh) @ [last (mem_nodes lh)])"
      using r by simp
    then have "links_ok (snd lh) (last (mem_nodes lh))
        (hd (butlast (mem_nodes lh) @ [last (mem_nodes lh)]))"
      by (rule ring_last_next)
    with ne hd have "links_ok (snd lh) (last (mem_nodes lh)) p" by simp
    with hd show "hd (mem_nodes lh) = p \<and> l_next (snd lh (last (mem_nodes lh))) = Some p"
      by (simp add: links_ok_def)
  qed
  have links: "\<forall>x \<in> set (mem_nodes lh).
           \<exists>y \<in> set (mem_nodes lh). \<exists>z \<in> set (mem_nodes lh).
             l_next (snd lh x) = Some y \<and> l_prev (snd lh y) = Some x
             \<and> l_prev (snd lh x) = Some z \<and> l_next (snd lh z) = Some x"
  proof
    fix x assume x: "x \<in> set (mem_nodes lh)"
    from r x obtain y where "y \<in> set (mem_nodes lh)" "l_next (snd lh x) = Some y"
      "l_prev (snd lh y) = Some x" by (rule ring_next)
    moreover from r x obtain z where "z \<in> set (mem_nodes lh)" "l_prev (snd lh x) = Some z"
      "l_next (snd lh z) = Some x" by (rule ring_prev)
    ultimately show "\<exists>y \<in> set (mem_nodes lh). \<exists>z \<in> set (mem_nodes lh).
             l_next (snd lh x) = Some y \<and> l_prev (snd lh y) = Some x
             \<and> l_prev (snd lh x) = Some z \<and> l_next (snd lh z) = Some x"
      by blast
  qed
  from inv empty head links
  show "mem_inv (mem_run h ops)
     \<and> (head_p (fst (mem_run h ops)) = None \<longleftrightarrow> mem_nodes (mem_run h ops) = [])
     \<and> (\<forall>p. head_p (fst (mem_run h ops)) = Some p \<longrightarrow>
           hd (mem_nodes (mem_run h ops)) = p
           \<and> l_next (snd (mem_run h ops) (last (mem_nodes (mem_run h ops)))) = Some p)
     \<and> (\<forall>x \<in> set (mem_nodes (mem_run h ops)).
           \<exists>y \<in> set (mem_nodes (mem_run h ops)). \<exists>z \<in> set (mem_nodes (mem_run h ops)).
             l_next (snd (mem_run h ops) x) = Some y \<and> l_prev (snd (mem_run h ops) y) = Some x
             \<and> l_prev (snd (mem_run h ops) x) = Some z \<and> l_next (snd (mem_run h ops) z) = Some x)"
    unfolding lh_def by (intro conjI)
qed

theorem double_list_ring_witness:
  "mem_calls_ok (Double_list_mem_ctor, (\<lambda>a. Double_list_links_ctor))
     [M_add 1 0 False, M_add 2 1 False, M_add 3 2 True, M_remove 2]
   \<and> mem_nodes (mem_run (\<lambda>a. Double_list_links_ctor)
        [M_add 1 0 False, M_add 2 1 False, M_add 3 2 True, M_remove 2]) = [3, 1]
   \<and> mem_inv (mem_run (\<lambda>a. Double_list_links_ctor)
        [M_add 1 0 False, M_add 2 1 False, M_add 3 2 True, M_remove 2])"
proof -
  have ok: "mem_calls_ok (Double_list_mem_ctor, (\<lambda>a. Double_list_links_ctor))
     [M_add 1 0 False, M_add 2 1 False, M_add 3 2 True, M_remove 2]"
    by code_simp
  have nodes: "mem_nodes (mem_run (\<lambda>a. Double_list_links_ctor)
        [M_add 1 0 False, M_add 2 1 False, M_add 3 2 True, M_remove 2]) = [3, 1]"
    by code_simp
  from double_list_ring [of "\<lambda>a. Double_list_links_ctor"
      "[M_add 1 0 False, M_add 2 1 False, M_add 3 2 True, M_remove 2]"] ok
  have "mem_inv (mem_run (\<lambda>a. Double_list_links_ctor)
        [M_add 1 0 False, M_add 2 1 False, M_add 3 2 True, M_remove 2])"
    by blast
  with ok nodes show ?thesis by (intro conjI)
qed

end
